theory Spec2Isabelle
  imports Main "HOL-Library.Multiset"
begin

section \<open>Python values used by \<open>run.py\<close>\<close>

text \<open>
  The program is the single script \<open>run.py\<close>. Python strings are sequences of code
  points; the model uses \<open>string\<close> with one \<open>char\<close> per code point, which covers the code
  points U+0000 to U+00FF. Exceptions are values of \<open>exn\<close>; a computation that may raise
  returns \<open>exn + 'a\<close> with \<open>Inl\<close> for the exception. Everything raised by the imaging
  library, the PDF library or the operating system is an \<open>ExternalError\<close>; like the
  built-in ones it derives from \<open>Exception\<close>, so \<open>except Exception\<close> catches it.
\<close>

datatype exn = ValueError | TypeError | EOFError | IndexError | ExternalError string

text \<open>\<open>[0-9]\<close> of the regular expression: the ten ASCII digits only.\<close>

definition is_ascii_digit :: "char \<Rightarrow> bool" where
  "is_ascii_digit c = (c \<in> set ''0123456789'')"

text \<open>
  \<open>str.isdigit\<close> is wider than \<open>[0-9]\<close>: a character counts when its Unicode property
  \<open>Numeric_Type\<close> is \<open>Digit\<close> or \<open>Decimal\<close>. Up to U+00FF these are the ASCII digits and
  the superscripts U+00B2, U+00B3 and U+00B9. The string must be non-empty.
\<close>

definition is_unicode_digit :: "char \<Rightarrow> bool" where
  "is_unicode_digit c = (is_ascii_digit c \<or> c \<in> set [CHR 0xB2, CHR 0xB3, CHR 0xB9])"

definition isdigit :: "string \<Rightarrow> bool" where
  "isdigit s = (s \<noteq> [] \<and> list_all is_unicode_digit s)"

text \<open>\<open>str.isspace\<close> per character, up to U+00FF.\<close>

definition is_space :: "char \<Rightarrow> bool" where
  "is_space c =
     (let n = (of_char c :: nat)
      in (9 \<le> n \<and> n \<le> 13) \<or> (28 \<le> n \<and> n \<le> 32) \<or> n = 133 \<or> n = 160)"

definition strip :: "string \<Rightarrow> string" where
  "strip s = rev (dropWhile is_space (rev (dropWhile is_space s)))"

text \<open>\<open>str.lower\<close> per character, up to U+00FF (U+00D7 is the multiplication sign).\<close>

definition lower_char :: "char \<Rightarrow> char" where
  "lower_char c =
     (let n = (of_char c :: nat)
      in if (65 \<le> n \<and> n \<le> 90) \<or> (192 \<le> n \<and> n \<le> 222 \<and> n \<noteq> 215)
         then char_of (n + 32) else c)"

definition lower :: "string \<Rightarrow> string" where
  "lower s = map lower_char s"

definition endswith :: "string \<Rightarrow> string \<Rightarrow> bool" where
  "endswith s e = (length e \<le> length s \<and> drop (length s - length e) s = e)"

text \<open>\<open>s.split(sep)\<close> for a one-character separator: never an empty list.\<close>

fun split_on :: "char \<Rightarrow> string \<Rightarrow> string list" where
  "split_on sep [] = [[]]"
| "split_on sep (c # cs) =
     (if c = sep then [] # split_on sep cs
      else (case split_on sep cs of
              [] \<Rightarrow> [[c]]
            | p # ps \<Rightarrow> (c # p) # ps))"

text \<open>
  \<open>int(s)\<close> on a string, base 10. The blanks \<open>int\<close> drops around the number are not
  those of \<open>str.strip\<close>: they are the ASCII blanks (tab to carriage return, and
  space) and, up to U+00FF, U+0085 and U+00A0; the separators U+001C to U+001F are not
  among them. Then one sign is allowed, and the rest is ASCII digits with single
  underscores between digits. More digits than the interpreter's limit for one
  conversion (4300 by default; sign and underscores do not count) raise \<open>ValueError\<close>,
  as anything else that is not a number does.
\<close>

definition is_int_space :: "char \<Rightarrow> bool" where
  "is_int_space c =
     (let n = (of_char c :: nat)
      in (9 \<le> n \<and> n \<le> 13) \<or> n = 32 \<or> n = 133 \<or> n = 160)"

definition int_strip :: "string \<Rightarrow> string" where
  "int_strip s = rev (dropWhile is_int_space (rev (dropWhile is_int_space s)))"

definition int_max_str_digits :: nat where
  "int_max_str_digits = 4300"

fun digits_with_underscores :: "string \<Rightarrow> bool" where
  "digits_with_underscores [] = False"
| "digits_with_underscores [c] = is_ascii_digit c"
| "digits_with_underscores (c # d # cs) =
     (is_ascii_digit c \<and>
      (if d = CHR ''_'' then digits_with_underscores cs
       else digits_with_underscores (d # cs)))"

definition digit_value :: "char \<Rightarrow> nat" where
  "digit_value c = of_char c - 48"

definition decimal_value :: "string \<Rightarrow> nat" where
  "decimal_value s = foldl (\<lambda>n c. 10 * n + digit_value c) 0 s"

definition py_int :: "string \<Rightarrow> exn + int" where
  "py_int s =
     (let t = int_strip s;
          neg = (t \<noteq> [] \<and> hd t = CHR ''-'');
          u = (if t \<noteq> [] \<and> (hd t = CHR ''-'' \<or> hd t = CHR ''+'') then tl t else t);
          ds = filter (\<lambda>c. c \<noteq> CHR ''_'') u
      in if \<not> digits_with_underscores u then Inl ValueError
         else if int_max_str_digits < length ds then Inl ValueError
         else Inr ((if neg then - 1 else 1) * int (decimal_value ds)))"

text \<open>A list comprehension whose element expression may raise: the first exception wins.\<close>

fun map_exn :: "('a \<Rightarrow> exn + 'b) \<Rightarrow> 'a list \<Rightarrow> exn + 'b list" where
  "map_exn f [] = Inr []"
| "map_exn f (x # xs) =
     (case f x of
        Inl e \<Rightarrow> Inl e
      | Inr y \<Rightarrow> (case map_exn f xs of Inl e \<Rightarrow> Inl e | Inr ys \<Rightarrow> Inr (y # ys)))"

text \<open>
  \<open>xs[i]\<close>: a negative index counts from the end; out of range raises \<open>IndexError\<close>.
\<close>

definition py_index :: "'a list \<Rightarrow> int \<Rightarrow> exn + 'a" where
  "py_index xs i =
     (if 0 \<le> i \<and> i < int (length xs) then Inr (xs ! nat i)
      else if i < 0 \<and> - int (length xs) \<le> i then Inr (xs ! nat (int (length xs) + i))
      else Inl IndexError)"

text \<open>\<open>max\<close> of a list of integers; the empty list raises \<open>ValueError\<close>.\<close>

definition py_max :: "int list \<Rightarrow> exn + int" where
  "py_max xs = (case xs of [] \<Rightarrow> Inl ValueError | x # r \<Rightarrow> Inr (fold max r x))"

section \<open>Paths\<close>

text \<open>\<open>os.path.join\<close> of two components and \<open>os.path.basename\<close>, POSIX flavour.\<close>

definition path_join :: "string \<Rightarrow> string \<Rightarrow> string" where
  "path_join a b =
     (if b \<noteq> [] \<and> hd b = CHR ''/'' then b
      else if a = [] \<or> last a = CHR ''/'' then a @ b
      else a @ ''/'' @ b)"

definition basename :: "string \<Rightarrow> string" where
  "basename p = rev (takeWhile (\<lambda>c. c \<noteq> CHR ''/'') (rev p))"

section \<open>The natural sort key (lines 79 to 83)\<close>

text \<open>
  \<open>re.split('([0-9]+)', x)\<close>: the pattern has one capturing group, so the result
  alternates the text between matches and the matched digit runs, starting and ending
  with a (possibly empty) text piece.
\<close>

function re_split :: "string \<Rightarrow> string list" where
  "re_split x =
     (let rest = dropWhile (\<lambda>c. \<not> is_ascii_digit c) x
      in if rest = [] then [x]
         else takeWhile (\<lambda>c. \<not> is_ascii_digit c) x
              # takeWhile is_ascii_digit rest
              # re_split (dropWhile is_ascii_digit rest))"
  by pat_completeness auto
termination
proof (relation "measure length", goal_cases)
  case 1
  show ?case by simp
next
  case (2 x rest)
  then obtain c cs where r: "rest = c # cs" and d: "is_ascii_digit c"
    by (metis hd_dropWhile list.exhaust_sel)
  have "length (dropWhile is_ascii_digit rest) \<le> length cs"
    using r d by (simp add: length_dropWhile_le)
  moreover have "length rest \<le> length x"
    using 2 by (simp add: length_dropWhile_le)
  ultimately show ?case using r by simp
qed

declare re_split.simps [simp del]

text \<open>
  The key is \<open>[int(c) if c.isdigit() else c for c in re.split(...)]\<close>: a list whose
  elements are strings or integers.
\<close>

datatype key_elem = KStr string | KInt int

definition key_of_piece :: "string \<Rightarrow> exn + key_elem" where
  "key_of_piece c =
     (if isdigit c
      then (case py_int c of Inl e \<Rightarrow> Inl e | Inr n \<Rightarrow> Inr (KInt n))
      else Inr (KStr c))"

definition natural_key :: "string \<Rightarrow> exn + key_elem list" where
  "natural_key x = map_exn key_of_piece (re_split x)"

text \<open>
  Comparison of keys is Python's \<open><\<close> on lists: the first position where the elements
  are not equal decides, by \<open><\<close> on the two elements; a proper prefix is smaller.
  Strings compare by code point, integers by value, and a string against an integer
  raises \<open>TypeError\<close>.
\<close>

fun str_lt :: "string \<Rightarrow> string \<Rightarrow> bool" where
  "str_lt [] [] = False"
| "str_lt [] (b # bs) = True"
| "str_lt (a # as) [] = False"
| "str_lt (a # as) (b # bs) =
     (if a = b then str_lt as bs else (of_char a :: nat) < of_char b)"

fun elem_lt :: "key_elem \<Rightarrow> key_elem \<Rightarrow> exn + bool" where
  "elem_lt (KStr a) (KStr b) = Inr (str_lt a b)"
| "elem_lt (KInt a) (KInt b) = Inr (a < b)"
| "elem_lt (KStr a) (KInt b) = Inl TypeError"
| "elem_lt (KInt a) (KStr b) = Inl TypeError"

fun key_lt :: "key_elem list \<Rightarrow> key_elem list \<Rightarrow> exn + bool" where
  "key_lt [] [] = Inr False"
| "key_lt [] (y # ys) = Inr True"
| "key_lt (x # xs) [] = Inr False"
| "key_lt (x # xs) (y # ys) = (if x = y then key_lt xs ys else elem_lt x y)"

text \<open>
  \<open>sorted(xs, key=f)\<close> first computes \<open>f\<close> for every element, in order (an exception
  there ends the call), then sorts stably using only \<open><\<close> on the keys. The stable
  sort is modelled as insertion sort: an element is placed behind every element whose
  key is smaller and in front of the first one whose key is not, so elements with equal
  keys keep their input order.
\<close>

fun insert_by_key ::
  "(key_elem list \<times> 'a) \<Rightarrow> (key_elem list \<times> 'a) list \<Rightarrow> exn + (key_elem list \<times> 'a) list" where
  "insert_by_key a [] = Inr [a]"
| "insert_by_key a (b # bs) =
     (case key_lt (fst b) (fst a) of
        Inl e \<Rightarrow> Inl e
      | Inr True \<Rightarrow> (case insert_by_key a bs of Inl e \<Rightarrow> Inl e | Inr r \<Rightarrow> Inr (b # r))
      | Inr False \<Rightarrow> Inr (a # b # bs))"

fun sort_by_key :: "(key_elem list \<times> 'a) list \<Rightarrow> exn + (key_elem list \<times> 'a) list" where
  "sort_by_key [] = Inr []"
| "sort_by_key (a # as) =
     (case sort_by_key as of Inl e \<Rightarrow> Inl e | Inr s \<Rightarrow> insert_by_key a s)"

definition with_key :: "('a \<Rightarrow> exn + key_elem list) \<Rightarrow> 'a \<Rightarrow> exn + (key_elem list \<times> 'a)" where
  "with_key f x = (case f x of Inl e \<Rightarrow> Inl e | Inr k \<Rightarrow> Inr (k, x))"

definition py_sorted :: "('a \<Rightarrow> exn + key_elem list) \<Rightarrow> 'a list \<Rightarrow> exn + 'a list" where
  "py_sorted f xs =
     (case map_exn (with_key f) xs of
        Inl e \<Rightarrow> Inl e
      | Inr kxs \<Rightarrow> (case sort_by_key kxs of Inl e \<Rightarrow> Inl e | Inr s \<Rightarrow> Inr (map snd s)))"

section \<open>The resolution policy selector (lines 19 to 54)\<close>

text \<open>
  \<open>get_user_choice\<close> returns a pair of a mode string and a parameter; the six pairs it
  can return are the six constructors of \<open>policy\<close>. Standard input is the list of the
  lines still to be read; \<open>input()\<close> on an exhausted input raises \<open>EOFError\<close>. The
  prompts written to the console are left out.
\<close>

datatype policy =
    UseNthImage int
  | MaxResolution
  | FixedResolution int int
  | FixedWidth int
  | FixedHeight int
  | OriginalSize

text \<open>
  The \<open>while True\<close> loop of option 3. \<open>width, height = map(int, ...)\<close> succeeds only
  when the split has exactly two pieces and both convert; every other outcome is a
  \<open>ValueError\<close>, which the loop catches before asking again. Each round consumes one
  line, so on a finite input the loop ends, with \<open>EOFError\<close> at the latest.
\<close>

fun fixed_resolution_prompt :: "string list \<Rightarrow> exn + policy" where
  "fixed_resolution_prompt [] = Inl EOFError"
| "fixed_resolution_prompt (l # ls) =
     (let size = strip l
      in if CHR ''x'' \<in> set (lower size)
         then (case map_exn py_int (split_on (CHR ''x'') (lower size)) of
                 Inr [width, height] \<Rightarrow> Inr (FixedResolution width height)
               | _ \<Rightarrow> fixed_resolution_prompt ls)
         else fixed_resolution_prompt ls)"

definition number_or_default :: "(int \<Rightarrow> policy) \<Rightarrow> int \<Rightarrow> string list \<Rightarrow> exn + policy" where
  "number_or_default mk dflt ls =
     (case ls of
        [] \<Rightarrow> Inl EOFError
      | l # _ \<Rightarrow>
          (let n = strip l
           in if isdigit n
              then (case py_int n of Inl e \<Rightarrow> Inl e | Inr v \<Rightarrow> Inr (mk v))
              else Inr (mk dflt)))"

definition get_user_choice :: "string list \<Rightarrow> exn + policy" where
  "get_user_choice stdin =
     (case stdin of
        [] \<Rightarrow> Inl EOFError
      | l # ls \<Rightarrow>
          (let choice = (if strip l = [] then ''1'' else strip l)
           in if choice = ''1'' then number_or_default UseNthImage 3 ls
              else if choice = ''2'' then Inr MaxResolution
              else if choice = ''3'' then fixed_resolution_prompt ls
              else if choice = ''4'' then number_or_default FixedWidth 800 ls
              else if choice = ''5'' then number_or_default FixedHeight 600 ls
              else if choice = ''6'' then Inr OriginalSize
              else Inr (UseNthImage 3)))"

section \<open>The environment and the state of a run\<close>

text \<open>
  An image as the imaging library presents it after \<open>Image.open\<close>: where it was read
  from, its \<open>size\<close> (width, height) and its \<open>mode\<close>.
\<close>

record image =
  img_src :: string
  img_size :: "int \<times> int"
  img_mode :: string

text \<open>
  What the program cannot control is a parameter: the directory the program runs in,
  the directory listings, what \<open>Image.open\<close> finds in a file, and which library calls
  fail. When a library call does not fail it has the documented effect: \<open>resize\<close>
  changes the size, \<open>convert('RGB')\<close> changes the mode, \<open>save\<close> writes the file.
\<close>

record world =
  base_dir :: string
  listdir :: "string \<Rightarrow> exn + string list"
  isdir :: "string \<Rightarrow> bool"
  image_header :: "string \<Rightarrow> exn + ((int \<times> int) \<times> string)"
  resize_error :: "image \<Rightarrow> int \<times> int \<Rightarrow> exn option"
  convert_error :: "image \<Rightarrow> exn option"
  save_error :: "image \<Rightarrow> string \<Rightarrow> exn option"
  img2pdf_error :: "image list \<Rightarrow> exn option"
  pdf_open_error :: "string \<Rightarrow> exn option"

datatype event =
    SkippedEmptyFolder string
  | ProcessingFailed string exn
  | Generated string

datatype file_content = EmptyFile | Pdf "image list"

text \<open>
  The state a run changes: the temp staging directory (whether it exists, and the
  staged file at each path in it), the files of the output directory, the lines printed
  by \<open>process_images\<close>, and the paths given to \<open>Image.open\<close> so far.
\<close>

record state =
  temp_exists :: bool
  temp_files :: "string \<rightharpoonup> image"
  output_files :: "string \<rightharpoonup> file_content"
  printed :: "event list"
  opened :: "string list"

definition image_open :: "world \<Rightarrow> string \<Rightarrow> state \<Rightarrow> (exn + image) \<times> state" where
  "image_open w p st =
     ((case image_header w p of
         Inl e \<Rightarrow> Inl e
       | Inr (sz, m) \<Rightarrow> Inr \<lparr>img_src = p, img_size = sz, img_mode = m\<rparr>),
      st\<lparr>opened := opened st @ [p]\<rparr>)"

definition resize :: "world \<Rightarrow> image \<Rightarrow> int \<times> int \<Rightarrow> exn + image" where
  "resize w img sz =
     (case resize_error w img sz of
        Some e \<Rightarrow> Inl e
      | None \<Rightarrow> Inr (img\<lparr>img_size := sz\<rparr>))"

definition convert_rgb :: "world \<Rightarrow> image \<Rightarrow> exn + image" where
  "convert_rgb w img =
     (case convert_error w img of
        Some e \<Rightarrow> Inl e
      | None \<Rightarrow> Inr (img\<lparr>img_mode := ''RGB''\<rparr>))"

definition save :: "world \<Rightarrow> image \<Rightarrow> string \<Rightarrow> state \<Rightarrow> (exn + unit) \<times> state" where
  "save w img path st =
     (case save_error w img path of
        Some e \<Rightarrow> (Inl e, st)
      | None \<Rightarrow> (Inr (), st\<lparr>temp_files := (temp_files st)(path \<mapsto> img)\<rparr>))"

section \<open>The target size resolver (lines 89 to 100)\<close>

text \<open>The comprehension \<open>[Image.open(f).size for f in image_files]\<close>.\<close>

fun open_sizes :: "world \<Rightarrow> string list \<Rightarrow> state \<Rightarrow> (exn + (int \<times> int) list) \<times> state" where
  "open_sizes w [] st = (Inr [], st)"
| "open_sizes w (f # fs) st =
     (case image_open w f st of
        (Inl e, st1) \<Rightarrow> (Inl e, st1)
      | (Inr img, st1) \<Rightarrow>
          (case open_sizes w fs st1 of
             (Inl e, st2) \<Rightarrow> (Inl e, st2)
           | (Inr sizes, st2) \<Rightarrow> (Inr (img_size img # sizes), st2)))"

definition max_size :: "(int \<times> int) list \<Rightarrow> exn + (int \<times> int)" where
  "max_size sizes =
     (case py_max (map fst sizes) of
        Inl e \<Rightarrow> Inl e
      | Inr mw \<Rightarrow> (case py_max (map snd sizes) of Inl e \<Rightarrow> Inl e | Inr mh \<Rightarrow> Inr (mw, mh)))"

text \<open>
  The index of the reference image is \<open>min(param - 1, len(image_files) - 1)\<close>, used as
  it is in \<open>image_files[n]\<close>.
\<close>

definition nth_image_index :: "int \<Rightarrow> string list \<Rightarrow> int" where
  "nth_image_index param image_files = min (param - 1) (int (length image_files) - 1)"

fun resolve_target_size ::
  "world \<Rightarrow> policy \<Rightarrow> string list \<Rightarrow> state \<Rightarrow> (exn + (int \<times> int) option) \<times> state" where
  "resolve_target_size w (UseNthImage param) image_files st =
     (case py_index image_files (nth_image_index param image_files) of
        Inl e \<Rightarrow> (Inl e, st)
      | Inr f \<Rightarrow>
          (case image_open w f st of
             (Inl e, st1) \<Rightarrow> (Inl e, st1)
           | (Inr img, st1) \<Rightarrow> (Inr (Some (img_size img)), st1)))"
| "resolve_target_size w MaxResolution image_files st =
     (case open_sizes w image_files st of
        (Inl e, st1) \<Rightarrow> (Inl e, st1)
      | (Inr sizes, st1) \<Rightarrow>
          (case max_size sizes of
             Inl e \<Rightarrow> (Inl e, st1)
           | Inr target_size \<Rightarrow> (Inr (Some target_size), st1)))"
| "resolve_target_size w (FixedResolution width height) image_files st =
     (Inr (Some (width, height)), st)"
| "resolve_target_size w (FixedWidth width) image_files st = (Inr None, st)"
| "resolve_target_size w (FixedHeight height) image_files st = (Inr None, st)"
| "resolve_target_size w OriginalSize image_files st = (Inr None, st)"

section \<open>Staging one image (the body of the \<open>try\<close>, lines 107 to 134)\<close>

text \<open>
  The resize step of the modes other than \<open>original_size\<close>. A target size, when there is
  one, is a pair and therefore true as a condition.
\<close>

definition resize_for_policy ::
  "world \<Rightarrow> policy \<Rightarrow> (int \<times> int) option \<Rightarrow> image \<Rightarrow> exn + image" where
  "resize_for_policy w pol target_size img =
     (case pol of
        FixedWidth param \<Rightarrow> resize w img (param, snd (img_size img))
      | FixedHeight param \<Rightarrow> resize w img (fst (img_size img), param)
      | _ \<Rightarrow>
          (case target_size of
             Some t \<Rightarrow> if img_size img \<noteq> t then resize w img t else Inr img
           | None \<Rightarrow> Inr img))"

text \<open>The mode test after the resize: only the mode \<open>RGBA\<close> is converted.\<close>

definition flatten_alpha :: "world \<Rightarrow> image \<Rightarrow> exn + image" where
  "flatten_alpha w img = (if img_mode img = ''RGBA'' then convert_rgb w img else Inr img)"

text \<open>
  From the opened image to the image that is saved, in the two branches of the source:
  \<open>original_size\<close> only tests the mode, the other modes resize first.
\<close>

definition prepare :: "world \<Rightarrow> policy \<Rightarrow> (int \<times> int) option \<Rightarrow> image \<Rightarrow> exn + image" where
  "prepare w pol target_size img =
     (if pol = OriginalSize then flatten_alpha w img
      else (case resize_for_policy w pol target_size img of
              Inl e \<Rightarrow> Inl e
            | Inr img1 \<Rightarrow> flatten_alpha w img1))"

definition temp_path_of :: "string \<Rightarrow> string \<Rightarrow> string" where
  "temp_path_of temp_dir img_path = path_join temp_dir (basename img_path)"

text \<open>
  The body of the \<open>try\<close>: open, prepare, save under the basename in the temp directory.
  The result is the exception, or the temp path for \<open>temp_images.append\<close>.
\<close>

definition stage_image ::
  "world \<Rightarrow> policy \<Rightarrow> (int \<times> int) option \<Rightarrow> string \<Rightarrow> string \<Rightarrow> state
     \<Rightarrow> (exn + string) \<times> state" where
  "stage_image w pol target_size temp_dir img_path st =
     (case image_open w img_path st of
        (Inl e, st1) \<Rightarrow> (Inl e, st1)
      | (Inr img, st1) \<Rightarrow>
          (case prepare w pol target_size img of
             Inl e \<Rightarrow> (Inl e, st1)
           | Inr img1 \<Rightarrow>
               (let temp_path = temp_path_of temp_dir img_path
                in case save w img1 temp_path st1 of
                     (Inl e, st2) \<Rightarrow> (Inl e, st2)
                   | (Inr u, st2) \<Rightarrow> (Inr temp_path, st2))))"

text \<open>
  The loop over \<open>image_files\<close> with its \<open>except Exception\<close>: a failure is printed with
  the path and the loop goes on.
\<close>

fun stage_all ::
  "world \<Rightarrow> policy \<Rightarrow> (int \<times> int) option \<Rightarrow> string \<Rightarrow> string list \<Rightarrow> string list \<Rightarrow> state
     \<Rightarrow> string list \<times> state" where
  "stage_all w pol target_size temp_dir [] temp_images st = (temp_images, st)"
| "stage_all w pol target_size temp_dir (img_path # rest) temp_images st =
     (case stage_image w pol target_size temp_dir img_path st of
        (Inl e, st1) \<Rightarrow>
          stage_all w pol target_size temp_dir rest temp_images
            (st1\<lparr>printed := printed st1 @ [ProcessingFailed img_path e]\<rparr>)
      | (Inr temp_path, st1) \<Rightarrow>
          stage_all w pol target_size temp_dir rest (temp_images @ [temp_path]) st1)"

section \<open>PDF assembly (lines 140 to 144)\<close>

text \<open>
  \<open>img2pdf.convert\<close> reads the files named in \<open>temp_images\<close> when it is called and makes
  one page of each, in the order given. The output file is opened for writing first,
  so it exists, empty, if the conversion then fails.
\<close>

definition read_temp :: "state \<Rightarrow> string \<Rightarrow> exn + image" where
  "read_temp st p =
     (case temp_files st p of
        None \<Rightarrow> Inl (ExternalError ''no such file'')
      | Some img \<Rightarrow> Inr img)"

definition img2pdf_convert :: "world \<Rightarrow> string list \<Rightarrow> state \<Rightarrow> exn + image list" where
  "img2pdf_convert w temp_images st =
     (case map_exn (read_temp st) temp_images of
        Inl e \<Rightarrow> Inl e
      | Inr pages \<Rightarrow>
          (case img2pdf_error w pages of Some e \<Rightarrow> Inl e | None \<Rightarrow> Inr pages))"

definition write_pdf :: "world \<Rightarrow> string \<Rightarrow> string list \<Rightarrow> state \<Rightarrow> exn option \<times> state" where
  "write_pdf w pdf_path temp_images st =
     (case pdf_open_error w pdf_path of
        Some e \<Rightarrow> (Some e, st)
      | None \<Rightarrow>
          (let st1 = st\<lparr>output_files := (output_files st)(pdf_path \<mapsto> EmptyFile)\<rparr>
           in case img2pdf_convert w temp_images st1 of
                Inl e \<Rightarrow> (Some e, st1)
              | Inr pages \<Rightarrow>
                  (None, st1\<lparr>output_files := (output_files st1)(pdf_path \<mapsto> Pdf pages),
                            printed := printed st1 @ [Generated pdf_path]\<rparr>)))"

section \<open>One folder and the whole run (lines 56 to 149)\<close>

definition recognized :: "string \<Rightarrow> bool" where
  "recognized f = list_ex (endswith (lower f)) [''.jpg'', ''.jpeg'', ''.png'', ''.webp'']"

definition image_paths :: "string \<Rightarrow> string list \<Rightarrow> string list" where
  "image_paths folder_path names = map (path_join folder_path) (filter recognized names)"

definition list_image_files :: "world \<Rightarrow> string \<Rightarrow> exn + string list" where
  "list_image_files w folder_path =
     (case listdir w folder_path of
        Inl e \<Rightarrow> Inl e
      | Inr names \<Rightarrow> py_sorted natural_key (image_paths folder_path names))"

text \<open>
  One iteration of the loop over the entries of the input directory, with the way it
  ended: the entry is not a directory, the folder has no image file, no image could be
  staged, the PDF was written, or an exception leaves the loop.
\<close>

datatype outcome =
    NotADirectory
  | EmptyFolder
  | NothingStaged
  | PdfWritten string
  | Raised exn

definition process_folder ::
  "world \<Rightarrow> policy \<Rightarrow> string \<Rightarrow> string \<Rightarrow> string \<Rightarrow> string \<Rightarrow> state \<Rightarrow> outcome \<times> state" where
  "process_folder w pol input_dir output_dir temp_dir folder_name st =
     (let folder_path = path_join input_dir folder_name
      in if \<not> isdir w folder_path then (NotADirectory, st)
         else (case list_image_files w folder_path of
                 Inl e \<Rightarrow> (Raised e, st)
               | Inr image_files \<Rightarrow>
                   if image_files = []
                   then (EmptyFolder,
                         st\<lparr>printed := printed st @ [SkippedEmptyFolder folder_name]\<rparr>)
                   else (case resolve_target_size w pol image_files st of
                           (Inl e, st1) \<Rightarrow> (Raised e, st1)
                         | (Inr target_size, st1) \<Rightarrow>
                             (case stage_all w pol target_size temp_dir image_files [] st1 of
                                (temp_images, st2) \<Rightarrow>
                                  if temp_images = [] then (NothingStaged, st2)
                                  else (let pdf_path =
                                              path_join output_dir (folder_name @ ''.pdf'')
                                        in case write_pdf w pdf_path temp_images st2 of
                                             (Some e, st3) \<Rightarrow> (Raised e, st3)
                                           | (None, st3) \<Rightarrow> (PdfWritten pdf_path, st3))))))"

fun run_folders ::
  "world \<Rightarrow> policy \<Rightarrow> string \<Rightarrow> string \<Rightarrow> string \<Rightarrow> string list \<Rightarrow> state \<Rightarrow> exn option \<times> state" where
  "run_folders w pol input_dir output_dir temp_dir [] st = (None, st)"
| "run_folders w pol input_dir output_dir temp_dir (folder_name # rest) st =
     (case process_folder w pol input_dir output_dir temp_dir folder_name st of
        (Raised e, st1) \<Rightarrow> (Some e, st1)
      | (_, st1) \<Rightarrow> run_folders w pol input_dir output_dir temp_dir rest st1)"

text \<open>The \<open>finally\<close> block: \<open>shutil.rmtree\<close> when the directory exists.\<close>

definition cleanup :: "state \<Rightarrow> state" where
  "cleanup st =
     (if temp_exists st then st\<lparr>temp_exists := False, temp_files := Map.empty\<rparr> else st)"

text \<open>The \<open>try\<close> block with its \<open>finally\<close>, for a policy already chosen.\<close>

definition run_with_policy :: "world \<Rightarrow> policy \<Rightarrow> state \<Rightarrow> exn option \<times> state" where
  "run_with_policy w pol st =
     (let input_dir = path_join (base_dir w) ''input'';
          output_dir = path_join (base_dir w) ''output'';
          temp_dir = path_join (base_dir w) ''temp_pdf_images'';
          (r, st1) = (case listdir w input_dir of
                        Inl e \<Rightarrow> (Some e, st)
                      | Inr names \<Rightarrow> run_folders w pol input_dir output_dir temp_dir names st)
      in (r, cleanup st1))"

text \<open>
  \<open>process_images\<close>: the three \<open>os.makedirs\<close> calls (of which the one for the temp
  directory changes the state), the policy prompt, then the \<open>try\<close>. The result is the
  exception that \<open>process_images\<close> raises, if any, and the state it leaves. Its caller
  only prints.
\<close>

definition process_images :: "world \<Rightarrow> string list \<Rightarrow> state \<Rightarrow> exn option \<times> state" where
  "process_images w stdin st =
     (let st1 = st\<lparr>temp_exists := True\<rparr>
      in case get_user_choice stdin of
           Inl e \<Rightarrow> (Some e, st1)
         | Inr pol \<Rightarrow> run_with_policy w pol st1)"

section \<open>Notions used to state the properties\<close>

text \<open>
  What staging one image file saves, or the exception that makes the loop skip it. It
  depends on the environment only, not on the state: the chain open, prepare, save of
  \<open>stage_image\<close> without the bookkeeping.
\<close>

definition conversion ::
  "world \<Rightarrow> policy \<Rightarrow> (int \<times> int) option \<Rightarrow> string \<Rightarrow> string \<Rightarrow> exn + image" where
  "conversion w pol target_size temp_dir img_path =
     (case image_header w img_path of
        Inl e \<Rightarrow> Inl e
      | Inr (sz, m) \<Rightarrow>
          (case prepare w pol target_size \<lparr>img_src = img_path, img_size = sz, img_mode = m\<rparr> of
             Inl e \<Rightarrow> Inl e
           | Inr img \<Rightarrow>
               (case save_error w img (temp_path_of temp_dir img_path) of
                  Some e \<Rightarrow> Inl e
                | None \<Rightarrow> Inr img)))"

definition stages :: "world \<Rightarrow> policy \<Rightarrow> (int \<times> int) option \<Rightarrow> string \<Rightarrow> string \<Rightarrow> bool" where
  "stages w pol target_size temp_dir img_path =
     (\<not> isl (conversion w pol target_size temp_dir img_path))"

text \<open>The line printed for an image file that does not stage; nothing for one that does.\<close>

definition failure_report ::
  "world \<Rightarrow> policy \<Rightarrow> (int \<times> int) option \<Rightarrow> string \<Rightarrow> string \<Rightarrow> event list" where
  "failure_report w pol target_size temp_dir img_path =
     (case conversion w pol target_size temp_dir img_path of
        Inl e \<Rightarrow> [ProcessingFailed img_path e]
      | Inr img \<Rightarrow> [])"

text \<open>
  The index the specification describes for \<open>UseNthImage(n)\<close>: \<open>n - 1\<close> clamped to
  \<open>[0, len - 1]\<close>. This definition follows the specification's words, for comparison
  with \<open>nth_image_index\<close>, which is the source's.
\<close>

definition clamped_index :: "int \<Rightarrow> nat \<Rightarrow> int" where
  "clamped_index n len = max 0 (min (n - 1) (int len - 1))"

text \<open>
  The modes of the imaging library that carry an alpha band, from its table of modes:
  grey with alpha, palette with alpha, true colour with alpha, and the premultiplied
  variants.
\<close>

definition has_alpha_channel :: "string \<Rightarrow> bool" where
  "has_alpha_channel m = (m \<in> set [''LA'', ''La'', ''PA'', ''RGBA'', ''RGBa''])"

text \<open>The pages of the PDF at a path of the output directory, if there is one.\<close>

definition pdf_pages :: "state \<Rightarrow> string \<Rightarrow> image list option" where
  "pdf_pages st p = (case output_files st p of Some (Pdf pages) \<Rightarrow> Some pages | _ \<Rightarrow> None)"

section \<open>Concrete environments\<close>

text \<open>
  A small environment for evaluating the program: the base directory is \<open>/b\<close>, the input
  directory holds the given folders with the given entries, the image files are those
  of the table, and no library call fails except \<open>Image.open\<close> on a file that is not in
  the table.
\<close>

definition demo_listdir :: "(string \<times> string list) list \<Rightarrow> string \<Rightarrow> exn + string list" where
  "demo_listdir folders p =
     (if p = ''/b/input'' then Inr (map fst folders)
      else (case map_of (map (\<lambda>(n, fs). (''/b/input/'' @ n, fs)) folders) p of
              Some fs \<Rightarrow> Inr fs
            | None \<Rightarrow> Inl (ExternalError ''no such directory'')))"

definition demo_header ::
  "(string \<times> ((int \<times> int) \<times> string)) list \<Rightarrow> string \<Rightarrow> exn + ((int \<times> int) \<times> string)" where
  "demo_header images p =
     (case map_of images p of
        Some h \<Rightarrow> Inr h
      | None \<Rightarrow> Inl (ExternalError ''cannot identify image file''))"

definition demo_world ::
  "(string \<times> string list) list \<Rightarrow> (string \<times> ((int \<times> int) \<times> string)) list \<Rightarrow> world" where
  "demo_world folders images =
     \<lparr>base_dir = ''/b'',
      listdir = demo_listdir folders,
      isdir = (\<lambda>p. p \<in> set (map (\<lambda>(n, fs). ''/b/input/'' @ n) folders)),
      image_header = demo_header images,
      resize_error = (\<lambda>img sz. None),
      convert_error = (\<lambda>img. None),
      save_error = (\<lambda>img p. None),
      img2pdf_error = (\<lambda>pages. None),
      pdf_open_error = (\<lambda>p. None)\<rparr>"

definition fresh :: state where
  "fresh = \<lparr>temp_exists = False, temp_files = Map.empty, output_files = Map.empty,
            printed = [], opened = []\<rparr>"

text \<open>
  One folder \<open>A\<close> with two images of different sizes; the listing is not in sorted
  order, and the second image (in natural-sort order) has the mode \<open>RGBA\<close>.
\<close>

definition pages_world :: world where
  "pages_world =
     demo_world [(''A'', [''p10.png'', ''p2.png''])]
       [(''/b/input/A/p2.png'', ((100, 200), ''RGB'')),
        (''/b/input/A/p10.png'', ((300, 50), ''RGBA''))]"

text \<open>One folder \<open>A\<close> whose first file cannot be opened as an image.\<close>

definition broken_world :: world where
  "broken_world =
     demo_world [(''A'', [''1.png'', ''2.png''])]
       [(''/b/input/A/2.png'', ((20, 20), ''RGB''))]"


text \<open>One folder \<open>A\<close> with a grey image with alpha, which opens in the mode \<open>LA\<close>.\<close>

definition alpha_world :: world where
  "alpha_world =
     demo_world [(''A'', [''g.png''])]
       [(''/b/input/A/g.png'', ((4, 4), ''LA''))]"

text \<open>
  A state in which the temp directory already holds a file \<open>p2.png\<close>, staged from
  another folder \<open>Z\<close>: the basename collides with a file of folder \<open>A\<close>.
\<close>

definition collision_state :: state where
  "collision_state =
     fresh\<lparr>temp_exists := True,
           temp_files := [''/b/temp_pdf_images/p2.png'' \<mapsto>
             \<lparr>img_src = ''/b/input/Z/p2.png'', img_size = (1, 1), img_mode = ''RGB''\<rparr>]\<rparr>"

text \<open>
  Strings that differ only in their numeric runs. A string is a first text run followed
  by pairs of a digit run and the text run behind it; digit runs are non-empty, text runs
  have no ASCII digit, and only the last text run may be empty. Two strings differ only
  in their numeric runs when they are built from the same text runs.
\<close>

fun join_runs :: "string \<Rightarrow> (string \<times> string) list \<Rightarrow> string" where
  "join_runs t0 [] = t0"
| "join_runs t0 ((d, t) # r) = t0 @ d @ join_runs t r"

definition digit_run :: "string \<Rightarrow> bool" where
  "digit_run d = (d \<noteq> [] \<and> list_all is_ascii_digit d)"

definition text_run :: "string \<Rightarrow> bool" where
  "text_run t = list_all (\<lambda>c. \<not> is_ascii_digit c) t"

fun runs_ok :: "(string \<times> string) list \<Rightarrow> bool" where
  "runs_ok [] = True"
| "runs_ok [(d, t)] = (digit_run d \<and> text_run t)"
| "runs_ok ((d, t) # e # r) = (digit_run d \<and> text_run t \<and> t \<noteq> [] \<and> runs_ok (e # r))"

text \<open>The part of the key behind the first text run.\<close>

definition run_keys :: "(string \<times> string) list \<Rightarrow> key_elem list" where
  "run_keys r = concat (map (\<lambda>(d, t). [KInt (int (decimal_value d)), KStr t]) r)"

text \<open>
  One folder \<open>A\<close> with two files whose names differ only in a numeric run, \<open>2\<close> against
  \<open>10\<close>; between two digit runs both names have the character U+00B2, superscript two.
\<close>

definition superscript_world :: world where
  "superscript_world =
     demo_world [(''A'', [''1'' @ [CHR 0xB2] @ ''2.jpg'', ''1'' @ [CHR 0xB2] @ ''10.jpg''])]
       [(''/b/input/A/1'' @ [CHR 0xB2] @ ''2.jpg'', ((20, 20), ''RGB'')),
        (''/b/input/A/1'' @ [CHR 0xB2] @ ''10.jpg'', ((20, 20), ''RGB''))]"

text \<open>
  The shape of a natural key: strings and integers alternate, beginning with a string
  (the flag says whether a string comes next).
\<close>

fun alternating :: "bool \<Rightarrow> key_elem list \<Rightarrow> bool" where
  "alternating b [] = True"
| "alternating b (KStr s # k) = (b \<and> alternating False k)"
| "alternating b (KInt n # k) = (\<not> b \<and> alternating True k)"

text \<open>
  The order the sort establishes: \<open>a\<close> may stand before \<open>b\<close> when the comparison
  \<open>b < a\<close> is false; on image files, when both keys are defined and compare so.
\<close>

definition key_le :: "key_elem list \<Rightarrow> key_elem list \<Rightarrow> bool" where
  "key_le a b = (key_lt b a = Inr False)"

definition natural_le :: "string \<Rightarrow> string \<Rightarrow> bool" where
  "natural_le x y =
     (case (natural_key x, natural_key y) of
        (Inr kx, Inr ky) \<Rightarrow> key_le kx ky
      | _ \<Rightarrow> False)"

text \<open>
  What PDF assembly finds in the temp directory for a folder. When the staging loop is
  over, the file at the temp path of an image file that staged is the conversion of the
  last image file of the folder that staged under that temp path; the pages are these
  files, one for every image file that staged, in the order of the image files. (Two
  image files of one folder share a temp path only if they share a basename.)
\<close>

definition last_staged ::
  "world \<Rightarrow> policy \<Rightarrow> (int \<times> int) option \<Rightarrow> string \<Rightarrow> string list \<Rightarrow> string \<Rightarrow> string" where
  "last_staged w pol target_size temp_dir image_files temp_path =
     last (filter (\<lambda>q. stages w pol target_size temp_dir q \<and>
                         temp_path_of temp_dir q = temp_path) image_files)"

definition staged_pages ::
  "world \<Rightarrow> policy \<Rightarrow> (int \<times> int) option \<Rightarrow> string \<Rightarrow> string list \<Rightarrow> image list" where
  "staged_pages w pol target_size temp_dir image_files =
     map (\<lambda>p. projr (conversion w pol target_size temp_dir
                       (last_staged w pol target_size temp_dir image_files
                          (temp_path_of temp_dir p))))
       (filter (stages w pol target_size temp_dir) image_files)"


section \<open>The staging loop\<close>

lemma stage_image_conversion:
  "stage_image w pol t td p st =
     (case conversion w pol t td p of
        Inl e \<Rightarrow> (Inl e, st\<lparr>opened := opened st @ [p]\<rparr>)
      | Inr img \<Rightarrow>
          (Inr (temp_path_of td p),
           st\<lparr>opened := opened st @ [p],
              temp_files := (temp_files st)(temp_path_of td p \<mapsto> img)\<rparr>))"
  by (simp add: stage_image_def conversion_def image_open_def save_def Let_def
           split: sum.splits prod.splits option.splits)

lemma prepare_src: "prepare w pol t img = Inr img' \<Longrightarrow> img_src img' = img_src img"
  by (auto simp: prepare_def flatten_alpha_def resize_for_policy_def resize_def convert_rgb_def
           split: if_splits sum.splits option.splits policy.splits)

lemma conversion_src: "conversion w pol t td p = Inr img \<Longrightarrow> img_src img = p"
  by (auto simp: conversion_def split: sum.splits prod.splits option.splits dest: prepare_src)

lemma flatten_alpha_mode: "flatten_alpha w img = Inr img' \<Longrightarrow> img_mode img' \<noteq> ''RGBA''"
  by (auto simp: flatten_alpha_def convert_rgb_def split: if_splits option.splits)

lemma conversion_not_rgba: "conversion w pol t td p = Inr img \<Longrightarrow> img_mode img \<noteq> ''RGBA''"
  by (auto simp: conversion_def prepare_def split: sum.splits prod.splits option.splits if_splits
           dest: flatten_alpha_mode)

lemma stage_all_paths:
  "fst (stage_all w pol t td ps acc st) =
     acc @ map (temp_path_of td) (filter (stages w pol t td) ps)"
  by (induction ps arbitrary: acc st)
     (auto simp: stage_image_conversion stages_def split: sum.splits)

lemma stage_all_printed:
  "printed (snd (stage_all w pol t td ps acc st)) =
     printed st @ concat (map (failure_report w pol t td) ps)"
  by (induction ps arbitrary: acc st)
     (auto simp: stage_image_conversion failure_report_def split: sum.splits)

lemma stage_all_opened:
  "opened (snd (stage_all w pol t td ps acc st)) = opened st @ ps"
  by (induction ps arbitrary: acc st)
     (auto simp: stage_image_conversion split: sum.splits)

lemma stage_all_outputs:
  "output_files (snd (stage_all w pol t td ps acc st)) = output_files st"
  by (induction ps arbitrary: acc st)
     (auto simp: stage_image_conversion split: sum.splits)

lemma stage_all_temp_exists:
  "temp_exists (snd (stage_all w pol t td ps acc st)) = temp_exists st"
  by (induction ps arbitrary: acc st)
     (auto simp: stage_image_conversion split: sum.splits)

lemma stage_all_temp_keep_or_own:
  "temp_files (snd (stage_all w pol t td ps acc st)) q = temp_files st q \<or>
   (\<exists>p \<in> set ps. \<exists>img. conversion w pol t td p = Inr img \<and> temp_path_of td p = q \<and>
       temp_files (snd (stage_all w pol t td ps acc st)) q = Some img)"
proof (induction ps arbitrary: acc st)
  case Nil
  show ?case by simp
next
  case (Cons p ps)
  show ?case
  proof (cases "conversion w pol t td p")
    case (Inl e)
    then show ?thesis
      using Cons.IH [of acc "st\<lparr>opened := opened st @ [p],
         printed := printed st @ [ProcessingFailed p e]\<rparr>"]
      by (auto simp: stage_image_conversion)
  next
    case (Inr img)
    let ?st1 = "st\<lparr>opened := opened st @ [p],
                   temp_files := (temp_files st)(temp_path_of td p \<mapsto> img)\<rparr>"
    show ?thesis
      using Cons.IH [of "acc @ [temp_path_of td p]" ?st1] Inr
      by (auto simp: stage_image_conversion)
  qed
qed

lemma stage_all_temp_own:
  assumes "p \<in> set ps" and "conversion w pol t td p = Inr img0"
  shows "\<exists>p' \<in> set ps. \<exists>img. conversion w pol t td p' = Inr img \<and>
           temp_path_of td p' = temp_path_of td p \<and>
           temp_files (snd (stage_all w pol t td ps acc st)) (temp_path_of td p) = Some img"
  using assms
proof (induction ps arbitrary: acc st)
  case Nil
  then show ?case by simp
next
  case (Cons a ps)
  show ?case
  proof (cases "conversion w pol t td a")
    case (Inl e)
    then have "p \<in> set ps" using Cons.prems by auto
    then show ?thesis
      using Cons.IH [of acc "st\<lparr>opened := opened st @ [a],
         printed := printed st @ [ProcessingFailed a e]\<rparr>"] Cons.prems(2) Inl
      by (auto simp: stage_image_conversion)
  next
    case (Inr img)
    let ?st1 = "st\<lparr>opened := opened st @ [a],
                   temp_files := (temp_files st)(temp_path_of td a \<mapsto> img)\<rparr>"
    let ?acc1 = "acc @ [temp_path_of td a]"
    show ?thesis
    proof (cases "p \<in> set ps")
      case True
      then show ?thesis
        using Cons.IH [of ?acc1 ?st1] Cons.prems(2) Inr
        by (auto simp: stage_image_conversion)
    next
      case False
      then have pa: "p = a" using Cons.prems by auto
      show ?thesis
        using stage_all_temp_keep_or_own [of w pol t td ps ?acc1 ?st1 "temp_path_of td a"] Inr pa
        by (auto simp: stage_image_conversion)
    qed
  qed
qed

section \<open>The target size resolver: properties\<close>

text \<open>
  C5. Under \<open>FixedResolution(w, h)\<close> the resolved target size is \<open>(w, h)\<close> for every
  list of image files, and resolving it opens no image: the list of paths given to
  \<open>Image.open\<close> is the same before and after.
\<close>

theorem fixed_resolution_without_decoding:
  "fst (resolve_target_size w (FixedResolution width height) image_files st)
     = Inr (Some (width, height)) \<and>
   opened (snd (resolve_target_size w (FixedResolution width height) image_files st))
     = opened st"
  by simp

lemma open_sizes_all_open:
  "map (image_header w) fs = map Inr headers \<Longrightarrow>
   open_sizes w fs st = (Inr (map fst headers), st\<lparr>opened := opened st @ fs\<rparr>)"
proof (induction fs arbitrary: headers st)
  case Nil
  then show ?case by simp
next
  case (Cons f fs)
  then obtain h hs where hs: "headers = h # hs" by (cases headers) auto
  with Cons.prems have f: "image_header w f = Inr h"
    and rest: "map (image_header w) fs = map Inr hs" by auto
  show ?case
    using Cons.IH [OF rest, of "st\<lparr>opened := opened st @ [f]\<rparr>"] f hs
    by (cases h) (simp add: image_open_def)
qed

lemma py_max_Max: "xs \<noteq> [] \<Longrightarrow> py_max xs = Inr (Max (set xs))"
proof (cases xs)
  case Nil
  assume "xs \<noteq> []"
  with Nil show ?thesis by simp
next
  case (Cons a list)
  have "fold max list a = Max (set (a # list))"
    by (rule Max.set_eq_fold [symmetric])
  with Cons show ?thesis by (simp add: py_max_def)
qed

text \<open>
  C4. Under \<open>MaxResolution\<close>, for a non-empty list of image files that all open (with the
  sizes and modes \<open>headers\<close>), the resolved target size is the maximum of all widths paired
  with the maximum of all heights, and every image of the folder has been opened. The
  witness is the example of the specification: the sizes (100,200) and (300,50) give
  (300,200).
\<close>

theorem max_resolution_componentwise:
  assumes "image_files \<noteq> []"
      and "map (image_header w) image_files = map Inr headers"
  shows "fst (resolve_target_size w MaxResolution image_files st)
           = Inr (Some (Max (set (map (\<lambda>h. fst (fst h)) headers)),
                        Max (set (map (\<lambda>h. snd (fst h)) headers)))) \<and>
         opened (snd (resolve_target_size w MaxResolution image_files st))
           = opened st @ image_files"
proof -
  have ne: "headers \<noteq> []" using assms by auto
  have "max_size (map fst headers)
          = Inr (Max (set (map (\<lambda>h. fst (fst h)) headers)),
                 Max (set (map (\<lambda>h. snd (fst h)) headers)))"
    using ne by (simp add: max_size_def py_max_Max comp_def)
  then show ?thesis
    by (simp add: open_sizes_all_open [OF assms(2)])
qed

theorem max_resolution_componentwise_witness:
  "[''/b/input/A/p2.png'', ''/b/input/A/p10.png''] \<noteq> [] \<and>
   map (image_header pages_world) [''/b/input/A/p2.png'', ''/b/input/A/p10.png'']
     = map Inr [((100, 200), ''RGB''), ((300, 50), ''RGBA'')] \<and>
   fst (resolve_target_size pages_world MaxResolution
          [''/b/input/A/p2.png'', ''/b/input/A/p10.png''] fresh)
     = Inr (Some (300, 200))"
proof -
  have h: "map (image_header pages_world) [''/b/input/A/p2.png'', ''/b/input/A/p10.png'']
     = map Inr [((100, 200), ''RGB''), ((300, 50), ''RGBA'')]"
    by (simp add: pages_world_def demo_world_def demo_header_def)
  have n: "[''/b/input/A/p2.png'', ''/b/input/A/p10.png''] \<noteq> []" by simp
  show ?thesis
    using max_resolution_componentwise [OF n h, of fresh] h by simp
qed

text \<open>
  For a parameter of at least 1 the source's index is the clamped index of the
  specification, it lies inside the list, and the resolver returns the native size of
  the image there.
\<close>

lemma nth_image_index_clamped:
  "1 \<le> param \<Longrightarrow> image_files \<noteq> [] \<Longrightarrow>
   nth_image_index param image_files = clamped_index param (length image_files)"
  by (cases image_files) (auto simp: nth_image_index_def clamped_index_def)

lemma use_nth_image_positive:
  assumes "1 \<le> param" and "image_files \<noteq> []"
      and "image_header w (image_files ! nat (clamped_index param (length image_files)))
             = Inr (sz, m)"
  shows "fst (resolve_target_size w (UseNthImage param) image_files st) = Inr (Some sz) \<and>
         0 \<le> clamped_index param (length image_files) \<and>
         clamped_index param (length image_files) < int (length image_files)"
proof -
  have r: "0 \<le> clamped_index param (length image_files) \<and>
         clamped_index param (length image_files) < int (length image_files)"
    using assms(1,2) by (cases image_files) (auto simp: clamped_index_def)
  then show ?thesis
    using assms
    by (simp add: nth_image_index_clamped py_index_def image_open_def)
qed

text \<open>
  C3. The claim fails for \<open>n = 0\<close>, which the prompt accepts (the answers \<open>1\<close> and then
  \<open>0\<close>). The source computes \<open>min(n - 1, len - 1) = -1\<close> and indexes the list with it, which
  in Python selects the last image: for the folder with the sizes (100,200) and (300,50)
  the target size is (300,50). The clamped index of the claim is 0, the first image, of
  size (100,200).
\<close>

theorem use_nth_image_zero_selects_last:
  "get_user_choice [''1'', ''0''] = Inr (UseNthImage 0) \<and>
   fst (resolve_target_size pages_world (UseNthImage 0)
          [''/b/input/A/p2.png'', ''/b/input/A/p10.png''] fresh) = Inr (Some (300, 50)) \<and>
   clamped_index 0 (length [''/b/input/A/p2.png'', ''/b/input/A/p10.png'']) = 0 \<and>
   image_header pages_world
     ([''/b/input/A/p2.png'', ''/b/input/A/p10.png''] ! 0) = Inr ((100, 200), ''RGB'')"
  by (simp add: get_user_choice_def number_or_default_def strip_def is_space_def isdigit_def
        is_unicode_digit_def is_ascii_digit_def py_int_def decimal_value_def digit_value_def
        int_strip_def is_int_space_def int_max_str_digits_def
        nth_image_index_def py_index_def image_open_def clamped_index_def
        pages_world_def demo_world_def demo_header_def fresh_def)

section \<open>The temp staging directory\<close>

text \<open>Once the policy is chosen, every way out of the \<open>try\<close> removes the directory.\<close>

lemma run_with_policy_removes_temp: "\<not> temp_exists (snd (run_with_policy w pol st))"
  by (simp add: run_with_policy_def cleanup_def Let_def split: prod.splits)

lemma process_images_removes_temp_after_prompt:
  "get_user_choice stdin = Inr pol \<Longrightarrow> \<not> temp_exists (snd (process_images w stdin st))"
  by (simp add: process_images_def run_with_policy_removes_temp)

text \<open>
  C6. The claim fails for an exception raised by the policy prompt, which runs after
  the temp directory is created and before the \<open>try\<close> whose \<open>finally\<close> removes it. With
  standard input at its end, \<open>input()\<close> raises \<open>EOFError\<close>, \<open>process_images\<close> raises it
  too, and the temp directory still exists, in every environment and from every state.
\<close>

theorem temp_dir_survives_prompt_error:
  "process_images w [] st = (Some EOFError, st\<lparr>temp_exists := True\<rparr>) \<and>
   temp_exists (snd (process_images w [] st))"
  by (simp add: process_images_def get_user_choice_def)

section \<open>Alpha channels\<close>

text \<open>
  C9. The claim fails for an image with an alpha channel whose mode is not \<open>RGBA\<close>: the
  source tests \<open>img.mode == 'RGBA'\<close> only. A grey image with alpha (mode \<open>LA\<close>) in a PNG
  file is staged as it is, alpha included.
\<close>

theorem grey_alpha_image_staged_with_alpha:
  "fst (stage_image alpha_world OriginalSize None ''/b/temp_pdf_images'' ''/b/input/A/g.png'' fresh)
     = Inr ''/b/temp_pdf_images/g.png'' \<and>
   temp_files (snd (stage_image alpha_world OriginalSize None ''/b/temp_pdf_images''
                      ''/b/input/A/g.png'' fresh)) ''/b/temp_pdf_images/g.png''
     = Some \<lparr>img_src = ''/b/input/A/g.png'', img_size = (4, 4), img_mode = ''LA''\<rparr> \<and>
   has_alpha_channel ''LA''"
  by (simp add: stage_image_def image_open_def prepare_def flatten_alpha_def save_def
        temp_path_of_def path_join_def basename_def has_alpha_channel_def Let_def
        alpha_world_def demo_world_def demo_header_def fresh_def)

section \<open>Folders without images\<close>





section \<open>Sorting: the result holds the same files\<close>

lemma map_exn_Inr_iff: "map_exn f xs = Inr ys \<longleftrightarrow> map f xs = map Inr ys"
proof (induction xs arbitrary: ys)
  case Nil
  show ?case by auto
next
  case (Cons x xs)
  show ?case
  proof (cases "f x")
    case (Inl e)
    then show ?thesis by (cases ys) auto
  next
    case (Inr y)
    show ?thesis
    proof (cases "map_exn f xs")
      case (Inl e)
      with Inr Cons.IH show ?thesis by (cases ys) auto
    next
      case r: (Inr zs)
      with Inr Cons.IH show ?thesis by (cases ys) auto
    qed
  qed
qed

lemma with_key_snd: "map_exn (with_key f) xs = Inr kxs \<Longrightarrow> map snd kxs = xs"
proof (induction xs arbitrary: kxs)
  case Nil
  then show ?case by simp
next
  case (Cons x xs)
  then show ?case
    by (auto simp: with_key_def split: sum.splits)
qed

lemma with_key_fst:
  "map_exn (with_key f) xs = Inr kxs \<Longrightarrow> \<forall>kx \<in> set kxs. f (snd kx) = Inr (fst kx)"
proof (induction xs arbitrary: kxs)
  case Nil
  then show ?case by simp
next
  case (Cons x xs)
  then show ?case
    by (auto simp: with_key_def split: sum.splits)
qed

lemma insert_by_key_mset: "insert_by_key a bs = Inr r \<Longrightarrow> mset r = add_mset a (mset bs)"
proof (induction bs arbitrary: r)
  case Nil
  then show ?case by auto
next
  case (Cons b bs)
  then show ?case
    by (auto split: sum.splits bool.splits if_splits)
qed

lemma sort_by_key_mset: "sort_by_key kxs = Inr s \<Longrightarrow> mset s = mset kxs"
proof (induction kxs arbitrary: s)
  case Nil
  then show ?case by simp
next
  case (Cons a kxs)
  then show ?case
    by (auto split: sum.splits dest: insert_by_key_mset)
qed

lemma py_sorted_mset: "py_sorted f xs = Inr ys \<Longrightarrow> mset ys = mset xs"
proof -
  assume a: "py_sorted f xs = Inr ys"
  then obtain kxs s where k: "map_exn (with_key f) xs = Inr kxs"
    and s: "sort_by_key kxs = Inr s" and y: "ys = map snd s"
    by (auto simp: py_sorted_def split: sum.splits)
  have "mset (map snd s) = mset (map snd kxs)"
    using sort_by_key_mset [OF s] by (metis mset_map)
  then show ?thesis using with_key_snd [OF k] y by simp
qed

lemma py_sorted_set: "py_sorted f xs = Inr ys \<Longrightarrow> set ys = set xs"
  by (metis py_sorted_mset set_mset_mset)

lemma py_sorted_keys_defined:
  "py_sorted f xs = Inr ys \<Longrightarrow> x \<in> set xs \<Longrightarrow> \<exists>k. f x = Inr k"
proof -
  assume a: "py_sorted f xs = Inr ys" and x: "x \<in> set xs"
  then obtain kxs where k: "map_exn (with_key f) xs = Inr kxs"
    by (auto simp: py_sorted_def split: sum.splits)
  have "x \<in> set (map snd kxs)" using with_key_snd [OF k] x by simp
  then show ?thesis using with_key_fst [OF k] by auto
qed

text \<open>The comparison of keys is asymmetric, whatever the keys.\<close>

lemma str_lt_asym: "str_lt a b \<Longrightarrow> \<not> str_lt b a"
  by (induction a b rule: str_lt.induct) (auto split: if_splits)

lemma elem_lt_asym: "elem_lt x y = Inr True \<Longrightarrow> elem_lt y x = Inr False"
  by (cases x; cases y) (auto dest: str_lt_asym)

lemma key_lt_asym: "key_lt a b = Inr True \<Longrightarrow> key_lt b a = Inr False"
  by (induction a b rule: key_lt.induct) (auto split: if_splits dest: elem_lt_asym)

section \<open>Paths, and what the resolver leaves unchanged\<close>

lemma basename_join: "CHR ''/'' \<notin> set f \<Longrightarrow> basename (path_join d f) = f"
proof -
  assume f: "CHR ''/'' \<notin> set f"
  then have pj: "path_join d f = (if d = [] \<or> last d = CHR ''/'' then d @ f else d @ ''/'' @ f)"
    by (cases f) (auto simp: path_join_def)
  have tw: "\<And>r. takeWhile (\<lambda>c. c \<noteq> CHR ''/'') (rev f @ r)
              = rev f @ takeWhile (\<lambda>c. c \<noteq> CHR ''/'') r"
    using f by (intro takeWhile_append2) auto
  show ?thesis
  proof (cases "d = [] \<or> last d = CHR ''/''")
    case True
    then have "takeWhile (\<lambda>c. c \<noteq> CHR ''/'') (rev d) = []"
      by (cases d rule: rev_cases) auto
    then show ?thesis using True tw [of "rev d"]
      by (simp add: basename_def pj)
  next
    case False
    then show ?thesis using tw [of "CHR ''/'' # rev d"]
      by (simp add: basename_def pj)
  qed
qed

lemma path_join_inj:
  "CHR ''/'' \<notin> set f \<Longrightarrow> CHR ''/'' \<notin> set g \<Longrightarrow> path_join d f = path_join d g \<Longrightarrow> f = g"
proof -
  assume f: "CHR ''/'' \<notin> set f" and g: "CHR ''/'' \<notin> set g"
    and e: "path_join d f = path_join d g"
  have "\<not> (f \<noteq> [] \<and> hd f = CHR ''/'')" using f by (cases f) auto
  moreover have "\<not> (g \<noteq> [] \<and> hd g = CHR ''/'')" using g by (cases g) auto
  ultimately show ?thesis using e by (auto simp: path_join_def split: if_splits)
qed

lemma temp_path_inj:
  assumes "CHR ''/'' \<notin> set f" and "CHR ''/'' \<notin> set g"
      and "temp_path_of td (path_join d f) = temp_path_of td (path_join d g)"
  shows "f = g"
  using assms by (simp add: temp_path_of_def basename_join) (rule path_join_inj)

lemma resolve_target_size_state:
  "resolve_target_size w pol fs st = (r, st1) \<Longrightarrow>
   printed st1 = printed st \<and> temp_files st1 = temp_files st \<and>
   output_files st1 = output_files st \<and> temp_exists st1 = temp_exists st"
proof -
  have os: "\<And>fs st r st1. open_sizes w fs st = (r, st1) \<Longrightarrow>
     printed st1 = printed st \<and> temp_files st1 = temp_files st \<and>
     output_files st1 = output_files st \<and> temp_exists st1 = temp_exists st"
  proof -
    fix fs st r st1
    show "open_sizes w fs st = (r, st1) \<Longrightarrow>
     printed st1 = printed st \<and> temp_files st1 = temp_files st \<and>
     output_files st1 = output_files st \<and> temp_exists st1 = temp_exists st"
    proof (induction fs arbitrary: st r st1)
      case Nil
      then show ?case by auto
    next
      case (Cons f fs)
      show ?case
      proof (cases "image_header w f")
        case (Inl e)
        with Cons.prems show ?thesis by (auto simp: image_open_def)
      next
        case (Inr h)
        obtain r2 st2 where o: "open_sizes w fs (st\<lparr>opened := opened st @ [f]\<rparr>) = (r2, st2)"
          by (cases "open_sizes w fs (st\<lparr>opened := opened st @ [f]\<rparr>)") auto
        from Cons.IH [OF o] have k: "printed st2 = printed st \<and> temp_files st2 = temp_files st \<and>
          output_files st2 = output_files st \<and> temp_exists st2 = temp_exists st" by simp
        have "st1 = st2" using Cons.prems Inr o
          by (cases h) (auto simp: image_open_def split: sum.splits)
        with k show ?thesis by simp
      qed
    qed
  qed
  assume a: "resolve_target_size w pol fs st = (r, st1)"
  show ?thesis
  proof (cases pol)
    case (UseNthImage n)
    with a show ?thesis
      by (auto simp: image_open_def split: sum.splits prod.splits)
  next
    case MaxResolution
    obtain r2 st2 where o: "open_sizes w fs st = (r2, st2)" by (cases "open_sizes w fs st") auto
    have "st1 = st2" using a MaxResolution o by (auto split: sum.splits)
    with os [OF o] show ?thesis by simp
  qed (use a in auto)
qed

lemma resolve_target_size_fst:
  "fst (resolve_target_size w pol fs st) = fst (resolve_target_size w pol fs st0)"
proof -
  have os: "\<And>st st0. fst (open_sizes w fs st) = fst (open_sizes w fs st0)"
  proof (induction fs)
    case Nil
    show ?case by simp
  next
    case (Cons f fs)
    show ?case
      using Cons [of "st\<lparr>opened := opened st @ [f]\<rparr>" "st0\<lparr>opened := opened st0 @ [f]\<rparr>"]
      by (auto simp: image_open_def split: sum.splits prod.splits)
  qed
  show ?thesis
  proof (cases pol)
    case MaxResolution
    then show ?thesis using os [of st st0]
      by (auto split: sum.splits prod.splits)
  qed (auto simp: image_open_def split: sum.splits prod.splits)
qed

section \<open>PDF assembly reads what the folder staged\<close>

lemma map_exn_all_Inr:
  "(\<And>x. x \<in> set xs \<Longrightarrow> \<exists>y. f x = Inr y \<and> P y) \<Longrightarrow>
   \<exists>ys. map_exn f xs = Inr ys \<and> length ys = length xs \<and> (\<forall>y \<in> set ys. P y)"
proof (induction xs)
  case Nil
  show ?case by simp
next
  case (Cons x xs)
  from Cons.prems [of x] obtain y where y: "f x = Inr y" "P y" by auto
  from Cons.IH Cons.prems obtain ys where
    ys: "map_exn f xs = Inr ys" "length ys = length xs" "\<forall>y \<in> set ys. P y"
    by (metis list.set_intros(2))
  show ?case using y ys by simp
qed

lemma map_exn_map: "(\<And>x. x \<in> set xs \<Longrightarrow> f x = Inr (g x)) \<Longrightarrow> map_exn f xs = Inr (map g xs)"
  by (induction xs) auto

lemma read_temp_staged:
  assumes "p \<in> set fs" and "stages w pol t td p"
  shows "\<exists>img. read_temp (snd (stage_all w pol t td fs acc st)) (temp_path_of td p) = Inr img \<and>
           (\<exists>p' \<in> set fs. conversion w pol t td p' = Inr img \<and>
                           temp_path_of td p' = temp_path_of td p)"
proof -
  from assms(2) obtain img0 where "conversion w pol t td p = Inr img0"
    by (cases "conversion w pol t td p") (auto simp: stages_def)
  from stage_all_temp_own [OF assms(1) this, of acc st]
  show ?thesis by (auto simp: read_temp_def)
qed

lemma read_temp_staged_inj:
  assumes "p \<in> set fs" and "stages w pol t td p" and "inj_on (temp_path_of td) (set fs)"
  shows "read_temp (snd (stage_all w pol t td fs acc st)) (temp_path_of td p)
           = Inr (projr (conversion w pol t td p))"
proof -
  from read_temp_staged [OF assms(1,2), of acc st] obtain img p' where
    r: "read_temp (snd (stage_all w pol t td fs acc st)) (temp_path_of td p) = Inr img"
    and p': "p' \<in> set fs" "conversion w pol t td p' = Inr img"
      "temp_path_of td p' = temp_path_of td p"
    by blast
  have "p' = p" using assms(1,3) p'(1,3) by (auto dest: inj_onD)
  then show ?thesis using r p'(2) by simp
qed

lemma read_temp_output_update [simp]:
  "read_temp (st\<lparr>output_files := x\<rparr>) = read_temp st"
  by (rule ext) (simp add: read_temp_def)

lemma write_pdf_None:
  assumes "write_pdf w p tis st = (None, st')"
  shows "\<exists>pages. map_exn (read_temp st) tis = Inr pages \<and>
           img2pdf_error w pages = None \<and> pdf_open_error w p = None \<and>
           pdf_pages st' p = Some pages \<and> printed st' = printed st @ [Generated p]"
proof (cases "pdf_open_error w p")
  case (Some e)
  with assms show ?thesis by (simp add: write_pdf_def)
next
  case None
  with assms show ?thesis
    by (cases "map_exn (read_temp st) tis")
       (auto simp: write_pdf_def img2pdf_convert_def pdf_pages_def Let_def
             split: option.splits)
qed

lemma write_pdf_Some:
  assumes "write_pdf w p tis st = (Some e, st')"
  shows "printed st' = printed st \<and>
         (pdf_open_error w p = Some e \<or>
          map_exn (read_temp st) tis = Inl e \<or>
          (\<exists>pages. map_exn (read_temp st) tis = Inr pages \<and> img2pdf_error w pages = Some e))"
proof (cases "pdf_open_error w p")
  case (Some e')
  with assms show ?thesis by (simp add: write_pdf_def)
next
  case None
  with assms show ?thesis
    by (cases "map_exn (read_temp st) tis")
       (auto simp: write_pdf_def img2pdf_convert_def pdf_pages_def Let_def
             split: option.splits)
qed

lemma process_folder_staged:
  assumes "isdir w (path_join input_dir folder_name)"
      and "list_image_files w (path_join input_dir folder_name) = Inr image_files"
      and "image_files \<noteq> []"
      and "resolve_target_size w pol image_files st = (Inr target_size, st1)"
  shows "process_folder w pol input_dir output_dir temp_dir folder_name st =
           (let staged = stage_all w pol target_size temp_dir image_files [] st1;
                pdf_path = path_join output_dir (folder_name @ ''.pdf'')
            in if fst staged = [] then (NothingStaged, snd staged)
               else (case write_pdf w pdf_path (fst staged) (snd staged) of
                       (Some e, st3) \<Rightarrow> (Raised e, st3)
                     | (None, st3) \<Rightarrow> (PdfWritten pdf_path, st3)))"
  using assms by (simp add: process_folder_def Let_def split: prod.splits)

lemma process_folder_PdfWritten:
  assumes "process_folder w pol input_dir output_dir temp_dir folder_name st = (PdfWritten p, st')"
  shows "\<exists>image_files target_size st1.
           isdir w (path_join input_dir folder_name) \<and>
           list_image_files w (path_join input_dir folder_name) = Inr image_files \<and>
           image_files \<noteq> [] \<and>
           resolve_target_size w pol image_files st = (Inr target_size, st1)"
  using assms
  by (auto simp: process_folder_def Let_def split: if_splits sum.splits prod.splits option.splits)

section \<open>The pages of a folder's PDF\<close>

lemma map_exn_map_map:
  "(\<And>x. x \<in> set xs \<Longrightarrow> f (g x) = Inr (h x)) \<Longrightarrow> map_exn f (map g xs) = Inr (map h xs)"
  by (induction xs) auto

lemma list_image_files_set:
  assumes "listdir w fp = Inr names" and "list_image_files w fp = Inr image_files"
  shows "mset image_files = mset (image_paths fp names)"
  using assms by (simp add: list_image_files_def py_sorted_mset)

lemma image_files_inj:
  assumes "listdir w fp = Inr names" and "list_image_files w fp = Inr image_files"
      and "\<forall>n \<in> set names. CHR ''/'' \<notin> set n"
  shows "inj_on (temp_path_of td) (set image_files)"
proof (rule inj_onI)
  fix p q
  assume p: "p \<in> set image_files" and q: "q \<in> set image_files"
    and e: "temp_path_of td p = temp_path_of td q"
  have s: "set image_files = set (image_paths fp names)"
    using list_image_files_set [OF assms(1,2)] by (metis set_mset_mset)
  from p s obtain f where f: "f \<in> set names" "p = path_join fp f"
    by (auto simp: image_paths_def)
  from q s obtain g where g: "g \<in> set names" "q = path_join fp g"
    by (auto simp: image_paths_def)
  have "f = g" using temp_path_inj [of f g td fp] assms(3) f g e by auto
  then show "p = q" using f g by simp
qed

text \<open>
  The temp directory after the staging loop, whatever it held before: at every path,
  the conversion of the last image file that staged under that path, or else the file
  that was there.
\<close>

lemma stage_all_temp_files:
  "temp_files (snd (stage_all w pol t td fs acc st)) q =
     (case filter (\<lambda>p. stages w pol t td p \<and> temp_path_of td p = q) fs of
        [] \<Rightarrow> temp_files st q
      | ps \<Rightarrow> Some (projr (conversion w pol t td (last ps))))"
proof (induction fs arbitrary: acc st)
  case Nil
  show ?case by simp
next
  case (Cons a fs)
  show ?case
  proof (cases "conversion w pol t td a")
    case (Inl e)
    then have "\<not> stages w pol t td a" by (simp add: stages_def)
    then show ?thesis
      using Inl Cons.IH [of acc "st\<lparr>opened := opened st @ [a],
         printed := printed st @ [ProcessingFailed a e]\<rparr>"]
      by (simp add: stage_image_conversion split: list.splits)
  next
    case (Inr img)
    then have sa: "stages w pol t td a" by (simp add: stages_def)
    let ?st1 = "st\<lparr>opened := opened st @ [a],
                   temp_files := (temp_files st)(temp_path_of td a \<mapsto> img)\<rparr>"
    have ih: "temp_files (snd (stage_all w pol t td fs (acc @ [temp_path_of td a]) ?st1)) q =
     (case filter (\<lambda>p. stages w pol t td p \<and> temp_path_of td p = q) fs of
        [] \<Rightarrow> temp_files ?st1 q
      | ps \<Rightarrow> Some (projr (conversion w pol t td (last ps))))"
      by (rule Cons.IH)
    show ?thesis
    proof (cases "temp_path_of td a = q")
      case True
      then show ?thesis using Inr sa ih
        by (cases "filter (\<lambda>p. stages w pol t td p \<and> temp_path_of td p = q) fs")
           (simp_all add: stage_image_conversion)
    next
      case False
      then show ?thesis using Inr sa ih
        by (simp add: stage_image_conversion split: list.splits)
    qed
  qed
qed

lemma read_temp_last_staged:
  assumes "p \<in> set fs" and "stages w pol t td p"
  shows "read_temp (snd (stage_all w pol t td fs acc st)) (temp_path_of td p)
           = Inr (projr (conversion w pol t td (last_staged w pol t td fs (temp_path_of td p))))"
proof -
  have "p \<in> set (filter (\<lambda>q. stages w pol t td q \<and> temp_path_of td q = temp_path_of td p) fs)"
    using assms by simp
  then have "filter (\<lambda>q. stages w pol t td q \<and> temp_path_of td q = temp_path_of td p) fs \<noteq> []"
    by (metis empty_iff list.set(1))
  then show ?thesis
    using stage_all_temp_files [of w pol t td fs acc st "temp_path_of td p"]
    by (simp add: read_temp_def last_staged_def split: list.splits)
qed

lemma staged_files_read:
  "map_exn (read_temp (snd (stage_all w pol t td fs [] st)))
     (fst (stage_all w pol t td fs [] st)) = Inr (staged_pages w pol t td fs)"
proof -
  have "map_exn (read_temp (snd (stage_all w pol t td fs [] st)))
          (map (temp_path_of td) (filter (stages w pol t td) fs))
        = Inr (map (\<lambda>p. projr (conversion w pol t td
                          (last_staged w pol t td fs (temp_path_of td p))))
                 (filter (stages w pol t td) fs))"
  proof (rule map_exn_map_map)
    fix p
    assume "p \<in> set (filter (stages w pol t td) fs)"
    then have "p \<in> set fs" "stages w pol t td p" by auto
    then show "read_temp (snd (stage_all w pol t td fs [] st)) (temp_path_of td p)
       = Inr (projr (conversion w pol t td (last_staged w pol t td fs (temp_path_of td p))))"
      by (rule read_temp_last_staged)
  qed
  then show ?thesis by (simp add: stage_all_paths staged_pages_def)
qed

lemma last_staged_own:
  assumes "p \<in> set fs" and "stages w pol t td p"
  shows "last_staged w pol t td fs (temp_path_of td p) \<in> set fs \<and>
         stages w pol t td (last_staged w pol t td fs (temp_path_of td p)) \<and>
         temp_path_of td (last_staged w pol t td fs (temp_path_of td p)) = temp_path_of td p"
proof -
  let ?ps = "filter (\<lambda>q. stages w pol t td q \<and> temp_path_of td q = temp_path_of td p) fs"
  have "p \<in> set ?ps" using assms by simp
  then have "?ps \<noteq> []" by (metis empty_iff list.set(1))
  then have "last ?ps \<in> set ?ps" by (rule last_in_set)
  then show ?thesis by (simp add: last_staged_def)
qed

lemma last_staged_inj:
  assumes "p \<in> set fs" and "stages w pol t td p" and "inj_on (temp_path_of td) (set fs)"
  shows "last_staged w pol t td fs (temp_path_of td p) = p"
  using last_staged_own [OF assms(1,2)] assms(1,3) by (auto dest: inj_onD)

lemma staged_pages_inj:
  assumes "inj_on (temp_path_of td) (set fs)"
  shows "staged_pages w pol t td fs
           = map (\<lambda>p. projr (conversion w pol t td p)) (filter (stages w pol t td) fs)"
  unfolding staged_pages_def
  by (rule map_cong [OF refl]) (simp add: last_staged_inj [OF _ _ assms])

lemma staged_pages_own:
  assumes "pg \<in> set (staged_pages w pol t td fs)"
  shows "\<exists>q \<in> set fs. stages w pol t td q \<and> conversion w pol t td q = Inr pg"
proof -
  from assms obtain p where p: "p \<in> set fs" "stages w pol t td p"
    and pg: "pg = projr (conversion w pol t td (last_staged w pol t td fs (temp_path_of td p)))"
    by (auto simp: staged_pages_def)
  let ?q = "last_staged w pol t td fs (temp_path_of td p)"
  from last_staged_own [OF p] have q: "?q \<in> set fs" "stages w pol t td ?q" by auto
  from q(2) obtain img where "conversion w pol t td ?q = Inr img"
    by (cases "conversion w pol t td ?q") (auto simp: stages_def)
  then show ?thesis using q pg by auto
qed

text \<open>
  C10. The list \<open>temp_images\<close> starts empty in every folder (\<open>process_folder\<close> calls
  \<open>stage_all\<close> with the empty list) and PDF assembly reads the files it names. Whatever
  the temp directory held before, in particular a file of the same basename staged by an
  earlier folder, the PDF that a folder writes has exactly the pages \<open>staged_pages\<close>: one
  page for every image file of the folder that staged, in order, and each page is the
  conversion of one of that folder's own recognized image files. When the listing
  entries are plain names, each page is the conversion of the image file it stands for.
\<close>

theorem pages_from_own_folder:
  assumes "process_folder w pol input_dir output_dir temp_dir folder_name st
             = (PdfWritten pdf_path, st')"
      and "listdir w (path_join input_dir folder_name) = Inr names"
  shows "\<exists>image_files target_size.
           list_image_files w (path_join input_dir folder_name) = Inr image_files \<and>
           fst (resolve_target_size w pol image_files st) = Inr target_size \<and>
           pdf_pages st' pdf_path
             = Some (staged_pages w pol target_size temp_dir image_files) \<and>
           length (staged_pages w pol target_size temp_dir image_files)
             = length (filter (stages w pol target_size temp_dir) image_files) \<and>
           (\<forall>pg \<in> set (staged_pages w pol target_size temp_dir image_files).
              \<exists>n \<in> set names.
                recognized n \<and>
                img_src pg = path_join (path_join input_dir folder_name) n \<and>
                conversion w pol target_size temp_dir
                  (path_join (path_join input_dir folder_name) n) = Inr pg) \<and>
           ((\<forall>n \<in> set names. CHR ''/'' \<notin> set n) \<longrightarrow>
              staged_pages w pol target_size temp_dir image_files
                = map (\<lambda>p. projr (conversion w pol target_size temp_dir p))
                    (filter (stages w pol target_size temp_dir) image_files))"
proof -
  let ?fp = "path_join input_dir folder_name"
  from process_folder_PdfWritten [OF assms(1)] obtain image_files target_size st1 where
    d: "isdir w ?fp" and l: "list_image_files w ?fp = Inr image_files"
    and ne: "image_files \<noteq> []"
    and r: "resolve_target_size w pol image_files st = (Inr target_size, st1)"
    by blast
  let ?staged = "stage_all w pol target_size temp_dir image_files [] st1"
  let ?pdf = "path_join output_dir (folder_name @ ''.pdf'')"
  let ?pages = "staged_pages w pol target_size temp_dir image_files"
  have pf: "(if fst ?staged = [] then (NothingStaged, snd ?staged)
             else (case write_pdf w ?pdf (fst ?staged) (snd ?staged) of
                     (Some e, st3) \<Rightarrow> (Raised e, st3)
                   | (None, st3) \<Rightarrow> (PdfWritten ?pdf, st3))) = (PdfWritten pdf_path, st')"
    using process_folder_staged [OF d l ne r, of output_dir temp_dir] assms(1)
    by (simp add: Let_def)
  then have wp: "write_pdf w pdf_path (fst ?staged) (snd ?staged) = (None, st')"
    by (auto split: if_splits prod.splits option.splits)
  have rd: "map_exn (read_temp (snd ?staged)) (fst ?staged) = Inr ?pages"
    by (rule staged_files_read)
  from write_pdf_None [OF wp] rd have pp: "pdf_pages st' pdf_path = Some ?pages" by auto
  have len: "length ?pages = length (filter (stages w pol target_size temp_dir) image_files)"
    by (simp add: staged_pages_def)
  have s: "set image_files = set (image_paths ?fp names)"
    using list_image_files_set [OF assms(2) l] by (metis set_mset_mset)
  have own: "\<forall>pg \<in> set ?pages. \<exists>n \<in> set names. recognized n \<and> img_src pg = path_join ?fp n \<and>
          conversion w pol target_size temp_dir (path_join ?fp n) = Inr pg"
  proof
    fix pg
    assume "pg \<in> set ?pages"
    from staged_pages_own [OF this] obtain q where
      q: "q \<in> set image_files" "conversion w pol target_size temp_dir q = Inr pg" by blast
    from q(1) s obtain n where n: "n \<in> set names" "recognized n" "q = path_join ?fp n"
      by (auto simp: image_paths_def)
    show "\<exists>n \<in> set names. recognized n \<and> img_src pg = path_join ?fp n \<and>
          conversion w pol target_size temp_dir (path_join ?fp n) = Inr pg"
      using n q(2) conversion_src [OF q(2)] by auto
  qed
  have exact: "(\<forall>n \<in> set names. CHR ''/'' \<notin> set n) \<longrightarrow>
      ?pages = map (\<lambda>p. projr (conversion w pol target_size temp_dir p))
                 (filter (stages w pol target_size temp_dir) image_files)"
  proof
    assume "\<forall>n \<in> set names. CHR ''/'' \<notin> set n"
    then have "inj_on (temp_path_of temp_dir) (set image_files)"
      by (rule image_files_inj [OF assms(2) l])
    then show "?pages = map (\<lambda>p. projr (conversion w pol target_size temp_dir p))
                 (filter (stages w pol target_size temp_dir) image_files)"
      by (rule staged_pages_inj)
  qed
  from l r pp len own exact show ?thesis by auto
qed

theorem pages_from_own_folder_witness:
  "process_folder pages_world OriginalSize ''/b/input'' ''/b/output''
       ''/b/temp_pdf_images'' ''A'' collision_state
     = (PdfWritten ''/b/output/A.pdf'',
        snd (process_folder pages_world OriginalSize ''/b/input'' ''/b/output''
               ''/b/temp_pdf_images'' ''A'' collision_state)) \<and>
   listdir pages_world (path_join ''/b/input'' ''A'') = Inr [''p10.png'', ''p2.png''] \<and>
   (\<exists>image_files target_size.
      list_image_files pages_world (path_join ''/b/input'' ''A'') = Inr image_files \<and>
      fst (resolve_target_size pages_world OriginalSize image_files collision_state)
        = Inr target_size \<and>
      pdf_pages (snd (process_folder pages_world OriginalSize ''/b/input'' ''/b/output''
               ''/b/temp_pdf_images'' ''A'' collision_state)) ''/b/output/A.pdf''
        = Some (staged_pages pages_world OriginalSize target_size ''/b/temp_pdf_images''
                  image_files) \<and>
      length (staged_pages pages_world OriginalSize target_size ''/b/temp_pdf_images''
                image_files)
        = length (filter (stages pages_world OriginalSize target_size ''/b/temp_pdf_images'')
                    image_files)) \<and>
   temp_files collision_state ''/b/temp_pdf_images/p2.png''
     = Some \<lparr>img_src = ''/b/input/Z/p2.png'', img_size = (1, 1), img_mode = ''RGB''\<rparr> \<and>
   staged_pages pages_world OriginalSize None ''/b/temp_pdf_images''
       [''/b/input/A/p2.png'', ''/b/input/A/p10.png'']
     = [\<lparr>img_src = ''/b/input/A/p2.png'', img_size = (100, 200), img_mode = ''RGB''\<rparr>,
        \<lparr>img_src = ''/b/input/A/p10.png'', img_size = (300, 50), img_mode = ''RGB''\<rparr>] \<and>
   pdf_pages (snd (process_folder pages_world OriginalSize ''/b/input'' ''/b/output''
          ''/b/temp_pdf_images'' ''A'' collision_state)) ''/b/output/A.pdf''
     = Some [\<lparr>img_src = ''/b/input/A/p2.png'', img_size = (100, 200), img_mode = ''RGB''\<rparr>,
             \<lparr>img_src = ''/b/input/A/p10.png'', img_size = (300, 50), img_mode = ''RGB''\<rparr>]"
proof -
  have f: "fst (process_folder pages_world OriginalSize ''/b/input'' ''/b/output''
             ''/b/temp_pdf_images'' ''A'' collision_state) = PdfWritten ''/b/output/A.pdf''"
    by code_simp
  have h1: "process_folder pages_world OriginalSize ''/b/input'' ''/b/output''
       ''/b/temp_pdf_images'' ''A'' collision_state
     = (PdfWritten ''/b/output/A.pdf'',
        snd (process_folder pages_world OriginalSize ''/b/input'' ''/b/output''
               ''/b/temp_pdf_images'' ''A'' collision_state))"
    using f by (simp add: prod_eq_iff)
  have h2: "listdir pages_world (path_join ''/b/input'' ''A'') = Inr [''p10.png'', ''p2.png'']"
    by code_simp
  have c1: "temp_files collision_state ''/b/temp_pdf_images/p2.png''
     = Some \<lparr>img_src = ''/b/input/Z/p2.png'', img_size = (1, 1), img_mode = ''RGB''\<rparr>"
    by (simp add: collision_state_def fresh_def)
  have c2: "pdf_pages (snd (process_folder pages_world OriginalSize ''/b/input'' ''/b/output''
          ''/b/temp_pdf_images'' ''A'' collision_state)) ''/b/output/A.pdf''
     = Some [\<lparr>img_src = ''/b/input/A/p2.png'', img_size = (100, 200), img_mode = ''RGB''\<rparr>,
             \<lparr>img_src = ''/b/input/A/p10.png'', img_size = (300, 50), img_mode = ''RGB''\<rparr>]"
    by code_simp
  have c3: "staged_pages pages_world OriginalSize None ''/b/temp_pdf_images''
       [''/b/input/A/p2.png'', ''/b/input/A/p10.png'']
     = [\<lparr>img_src = ''/b/input/A/p2.png'', img_size = (100, 200), img_mode = ''RGB''\<rparr>,
        \<lparr>img_src = ''/b/input/A/p10.png'', img_size = (300, 50), img_mode = ''RGB''\<rparr>]"
    by code_simp
  from pages_from_own_folder [OF h1 h2] h1 h2 c1 c2 c3
  show ?thesis by blast
qed

text \<open>
  C1, as stated, fails when an image of the folder does not stage: the loop skips it, so
  the pages behind it move up. In the folder below the first image file cannot be opened
  and the only page of the PDF is the conversion of the second image file.
\<close>

theorem skipped_image_shifts_pages:
  "list_image_files broken_world ''/b/input/A''
     = Inr [''/b/input/A/1.png'', ''/b/input/A/2.png''] \<and>
   fst (process_folder broken_world OriginalSize ''/b/input'' ''/b/output''
          ''/b/temp_pdf_images'' ''A'' fresh) = PdfWritten ''/b/output/A.pdf'' \<and>
   pdf_pages (snd (process_folder broken_world OriginalSize ''/b/input'' ''/b/output''
          ''/b/temp_pdf_images'' ''A'' fresh)) ''/b/output/A.pdf''
     = Some [\<lparr>img_src = ''/b/input/A/2.png'', img_size = (20, 20), img_mode = ''RGB''\<rparr>]"
  by code_simp

section \<open>Isolation of failures in the staging loop\<close>

text \<open>
  C7, as stated, fails for an image that cannot be opened while the target size is
  resolved: under \<open>MaxResolution\<close> the resolver opens every image outside the \<open>try\<close> of
  the staging loop. In the folder below the second image is fine, yet the exception
  leaves the loop over the folders, nothing is printed for the image, and no PDF is
  written.
\<close>

theorem decode_failure_in_resolver_aborts:
  "image_header broken_world ''/b/input/A/2.png'' = Inr ((20, 20), ''RGB'') \<and>
   fst (process_folder broken_world MaxResolution ''/b/input'' ''/b/output''
          ''/b/temp_pdf_images'' ''A'' fresh)
     = Raised (ExternalError ''cannot identify image file'') \<and>
   printed (snd (process_folder broken_world MaxResolution ''/b/input'' ''/b/output''
          ''/b/temp_pdf_images'' ''A'' fresh)) = [] \<and>
   fst (run_with_policy broken_world MaxResolution fresh)
     = Some (ExternalError ''cannot identify image file'') \<and>
   output_files (snd (run_with_policy broken_world MaxResolution fresh)) ''/b/output/A.pdf''
     = None"
  by code_simp

text \<open>
  C7, amended. Once the target size of a folder is resolved, a failure to open, resize,
  convert or save an image never leaves the staging loop. What is printed is, for every
  image file that does not stage, in order, the line with its path and its error (and
  the line for the PDF, if one is written). The way the folder ends is determined by
  the images that staged: nothing is staged if none did; otherwise an exception leaves
  the folder only when opening the output file fails or when the PDF conversion of the
  folder's own staged pages fails, and in every other case the PDF is written, with
  exactly those pages, one per staged image, each the conversion of an image file of
  the folder that staged.
\<close>

theorem staging_failures_isolated:
  assumes "isdir w (path_join input_dir folder_name)"
      and "list_image_files w (path_join input_dir folder_name) = Inr image_files"
      and "image_files \<noteq> []"
      and "resolve_target_size w pol image_files st = (Inr target_size, st1)"
      and "process_folder w pol input_dir output_dir temp_dir folder_name st = (oc, st')"
  shows "printed st' =
           printed st
           @ concat (map (failure_report w pol target_size temp_dir) image_files)
           @ (case oc of PdfWritten p \<Rightarrow> [Generated p] | _ \<Rightarrow> []) \<and>
         oc = (if filter (stages w pol target_size temp_dir) image_files = []
               then NothingStaged
               else (case pdf_open_error w (path_join output_dir (folder_name @ ''.pdf'')) of
                       Some e \<Rightarrow> Raised e
                     | None \<Rightarrow>
                         (case img2pdf_error w
                                 (staged_pages w pol target_size temp_dir image_files) of
                            Some e \<Rightarrow> Raised e
                          | None \<Rightarrow> PdfWritten (path_join output_dir (folder_name @ ''.pdf''))))) \<and>
         (oc = PdfWritten (path_join output_dir (folder_name @ ''.pdf'')) \<longrightarrow>
            pdf_pages st' (path_join output_dir (folder_name @ ''.pdf''))
              = Some (staged_pages w pol target_size temp_dir image_files)) \<and>
         length (staged_pages w pol target_size temp_dir image_files)
           = length (filter (stages w pol target_size temp_dir) image_files) \<and>
         (\<forall>pg \<in> set (staged_pages w pol target_size temp_dir image_files).
            \<exists>q \<in> set image_files.
              stages w pol target_size temp_dir q \<and>
              conversion w pol target_size temp_dir q = Inr pg)"
proof -
  let ?staged = "stage_all w pol target_size temp_dir image_files [] st1"
  let ?pdf = "path_join output_dir (folder_name @ ''.pdf'')"
  let ?ok = "filter (stages w pol target_size temp_dir) image_files"
  let ?reports = "concat (map (failure_report w pol target_size temp_dir) image_files)"
  let ?pages = "staged_pages w pol target_size temp_dir image_files"
  have pf: "(oc, st') = (if fst ?staged = [] then (NothingStaged, snd ?staged)
             else (case write_pdf w ?pdf (fst ?staged) (snd ?staged) of
                     (Some e, st3) \<Rightarrow> (Raised e, st3)
                   | (None, st3) \<Rightarrow> (PdfWritten ?pdf, st3)))"
    using process_folder_staged [OF assms(1-4), of output_dir temp_dir] assms(5)
    by (simp add: Let_def)
  have empty: "fst ?staged = [] \<longleftrightarrow> ?ok = []"
    by (simp add: stage_all_paths)
  have pr: "printed (snd ?staged) = printed st @ ?reports"
    using resolve_target_size_state [OF assms(4)] by (simp add: stage_all_printed)
  have rd: "map_exn (read_temp (snd ?staged)) (fst ?staged) = Inr ?pages"
    by (rule staged_files_read)
  have len: "length ?pages = length ?ok" by (simp add: staged_pages_def)
  have own: "\<forall>pg \<in> set ?pages. \<exists>q \<in> set image_files.
               stages w pol target_size temp_dir q \<and>
               conversion w pol target_size temp_dir q = Inr pg"
    using staged_pages_own by blast
  show ?thesis
  proof (cases "?ok = []")
    case True
    then have "oc = NothingStaged" "st' = snd ?staged" using pf empty by auto
    then show ?thesis using True pr len own by simp
  next
    case False
    then have ne: "fst ?staged \<noteq> []" using empty by simp
    obtain r st3 where wp: "write_pdf w ?pdf (fst ?staged) (snd ?staged) = (r, st3)"
      by (cases "write_pdf w ?pdf (fst ?staged) (snd ?staged)") auto
    show ?thesis
    proof (cases r)
      case None
      then have oc: "oc = PdfWritten ?pdf" "st' = st3" using pf ne wp by auto
      from write_pdf_None [OF wp [unfolded None]] rd
      have "pdf_pages st3 ?pdf = Some ?pages"
        "printed st3 = printed (snd ?staged) @ [Generated ?pdf]"
        "pdf_open_error w ?pdf = None" "img2pdf_error w ?pages = None"
        by auto
      then show ?thesis using oc False pr len own by simp
    next
      case (Some e)
      then have oc: "oc = Raised e" "st' = st3" using pf ne wp by auto
      from write_pdf_Some [OF wp [unfolded Some]] rd
      have p3: "printed st3 = printed (snd ?staged)"
        and er: "pdf_open_error w ?pdf = Some e \<or> img2pdf_error w ?pages = Some e"
        by auto
      have "(case pdf_open_error w ?pdf of
               Some e \<Rightarrow> Raised e
             | None \<Rightarrow> (case img2pdf_error w ?pages of
                          Some e \<Rightarrow> Raised e
                        | None \<Rightarrow> PdfWritten ?pdf)) = Raised e"
      proof (cases "pdf_open_error w ?pdf")
        case None
        with er show ?thesis by auto
      next
        case (Some e')
        then have "write_pdf w ?pdf (fst ?staged) (snd ?staged) = (Some e', snd ?staged)"
          by (simp add: write_pdf_def)
        with wp \<open>r = Some e\<close> have "e' = e" by simp
        with Some show ?thesis by simp
      qed
      then show ?thesis using oc False pr p3 len own by simp
    qed
  qed
qed

theorem staging_failures_isolated_witness:
  "isdir broken_world (path_join ''/b/input'' ''A'') \<and>
   list_image_files broken_world (path_join ''/b/input'' ''A'')
     = Inr [''/b/input/A/1.png'', ''/b/input/A/2.png''] \<and>
   [''/b/input/A/1.png'', ''/b/input/A/2.png''] \<noteq> [] \<and>
   fst (resolve_target_size broken_world OriginalSize
         [''/b/input/A/1.png'', ''/b/input/A/2.png''] fresh) = Inr None \<and>
   fst (process_folder broken_world OriginalSize ''/b/input'' ''/b/output''
          ''/b/temp_pdf_images'' ''A'' fresh) = PdfWritten ''/b/output/A.pdf'' \<and>
   printed (snd (process_folder broken_world OriginalSize ''/b/input'' ''/b/output''
          ''/b/temp_pdf_images'' ''A'' fresh))
     = [ProcessingFailed ''/b/input/A/1.png'' (ExternalError ''cannot identify image file''),
        Generated ''/b/output/A.pdf''] \<and>
   staged_pages broken_world OriginalSize None ''/b/temp_pdf_images''
       [''/b/input/A/1.png'', ''/b/input/A/2.png'']
     = [\<lparr>img_src = ''/b/input/A/2.png'', img_size = (20, 20), img_mode = ''RGB''\<rparr>] \<and>
   pdf_pages (snd (process_folder broken_world OriginalSize ''/b/input'' ''/b/output''
          ''/b/temp_pdf_images'' ''A'' fresh)) ''/b/output/A.pdf''
     = Some [\<lparr>img_src = ''/b/input/A/2.png'', img_size = (20, 20), img_mode = ''RGB''\<rparr>]"
proof -
  have a: "isdir broken_world (path_join ''/b/input'' ''A'')" by code_simp
  have b: "list_image_files broken_world (path_join ''/b/input'' ''A'')
     = Inr [''/b/input/A/1.png'', ''/b/input/A/2.png'']" by code_simp
  have c: "[''/b/input/A/1.png'', ''/b/input/A/2.png''] \<noteq> []" by simp
  have d: "resolve_target_size broken_world OriginalSize
         [''/b/input/A/1.png'', ''/b/input/A/2.png''] fresh = (Inr None, fresh)" by simp
  have e: "process_folder broken_world OriginalSize ''/b/input'' ''/b/output''
          ''/b/temp_pdf_images'' ''A'' fresh
     = (fst (process_folder broken_world OriginalSize ''/b/input'' ''/b/output''
          ''/b/temp_pdf_images'' ''A'' fresh),
        snd (process_folder broken_world OriginalSize ''/b/input'' ''/b/output''
          ''/b/temp_pdf_images'' ''A'' fresh))" by simp
  have f: "fst (process_folder broken_world OriginalSize ''/b/input'' ''/b/output''
             ''/b/temp_pdf_images'' ''A'' fresh) = PdfWritten ''/b/output/A.pdf''"
    by code_simp
  have r: "concat (map (failure_report broken_world OriginalSize None ''/b/temp_pdf_images'')
             [''/b/input/A/1.png'', ''/b/input/A/2.png''])
     = [ProcessingFailed ''/b/input/A/1.png'' (ExternalError ''cannot identify image file'')]"
    by code_simp
  have sp: "staged_pages broken_world OriginalSize None ''/b/temp_pdf_images''
       [''/b/input/A/1.png'', ''/b/input/A/2.png'']
     = [\<lparr>img_src = ''/b/input/A/2.png'', img_size = (20, 20), img_mode = ''RGB''\<rparr>]"
    by code_simp
  have pj: "path_join ''/b/output'' (''A'' @ ''.pdf'') = ''/b/output/A.pdf''" by code_simp
  have p0: "printed fresh = []" by (simp add: fresh_def)
  note t = staging_failures_isolated [OF a b c d e]
  from t have "printed (snd (process_folder broken_world OriginalSize ''/b/input'' ''/b/output''
          ''/b/temp_pdf_images'' ''A'' fresh))
     = printed fresh
       @ concat (map (failure_report broken_world OriginalSize None ''/b/temp_pdf_images'')
             [''/b/input/A/1.png'', ''/b/input/A/2.png''])
       @ (case fst (process_folder broken_world OriginalSize ''/b/input'' ''/b/output''
             ''/b/temp_pdf_images'' ''A'' fresh) of PdfWritten p \<Rightarrow> [Generated p] | _ \<Rightarrow> [])"
    by (rule conjunct1)
  then have pr: "printed (snd (process_folder broken_world OriginalSize ''/b/input'' ''/b/output''
          ''/b/temp_pdf_images'' ''A'' fresh))
     = [ProcessingFailed ''/b/input/A/1.png'' (ExternalError ''cannot identify image file''),
        Generated ''/b/output/A.pdf'']"
    unfolding f r p0 by simp
  from t have "fst (process_folder broken_world OriginalSize ''/b/input'' ''/b/output''
             ''/b/temp_pdf_images'' ''A'' fresh)
        = PdfWritten (path_join ''/b/output'' (''A'' @ ''.pdf'')) \<longrightarrow>
      pdf_pages (snd (process_folder broken_world OriginalSize ''/b/input'' ''/b/output''
          ''/b/temp_pdf_images'' ''A'' fresh)) (path_join ''/b/output'' (''A'' @ ''.pdf''))
        = Some (staged_pages broken_world OriginalSize None ''/b/temp_pdf_images''
                  [''/b/input/A/1.png'', ''/b/input/A/2.png''])"
    by blast
  then have pg: "pdf_pages (snd (process_folder broken_world OriginalSize ''/b/input''
          ''/b/output'' ''/b/temp_pdf_images'' ''A'' fresh)) ''/b/output/A.pdf''
     = Some [\<lparr>img_src = ''/b/input/A/2.png'', img_size = (20, 20), img_mode = ''RGB''\<rparr>]"
    unfolding pj f sp by simp
  from a b c d f pr sp pg show ?thesis by simp
qed

section \<open>The natural sort key: properties\<close>

lemma join_runs_starts_with_text:
  assumes "text_run t" and "r \<noteq> [] \<longrightarrow> t \<noteq> []"
  shows "takeWhile is_ascii_digit (join_runs t r) = [] \<and>
         dropWhile is_ascii_digit (join_runs t r) = join_runs t r"
proof (cases t)
  case Nil
  with assms(2) have "r = []" by auto
  with Nil show ?thesis by simp
next
  case (Cons c cs)
  with assms(1) have "\<not> is_ascii_digit c" by (simp add: text_run_def)
  then show ?thesis using Cons by (cases r) auto
qed

lemma runs_ok_Cons:
  "runs_ok ((d, t) # r) \<Longrightarrow> digit_run d \<and> text_run t \<and> (r \<noteq> [] \<longrightarrow> t \<noteq> []) \<and> runs_ok r"
  by (cases r) auto

lemma re_split_join_runs:
  "text_run t0 \<Longrightarrow> runs_ok r \<Longrightarrow>
   re_split (join_runs t0 r) = t0 # concat (map (\<lambda>(d, t). [d, t]) r)"
proof (induction r arbitrary: t0)
  case Nil
  then have "dropWhile (\<lambda>c. \<not> is_ascii_digit c) t0 = []"
    by (simp add: text_run_def list_all_iff)
  then show ?case by (simp add: re_split.simps [of t0])
next
  case (Cons a r)
  obtain d t where a: "a = (d, t)" by (cases a)
  from Cons.prems(2) a have ok: "digit_run d" "text_run t" "r \<noteq> [] \<longrightarrow> t \<noteq> []" "runs_ok r"
    using runs_ok_Cons by blast+
  from ok(1) obtain c cs where d: "d = c # cs" "is_ascii_digit c" "list_all is_ascii_digit cs"
    by (cases d) (auto simp: digit_run_def)
  let ?rest = "join_runs t r"
  let ?x = "t0 @ d @ ?rest"
  have t0: "\<And>c. c \<in> set t0 \<Longrightarrow> \<not> is_ascii_digit c"
    using Cons.prems(1) by (simp add: text_run_def list_all_iff)
  have dr: "dropWhile (\<lambda>c. \<not> is_ascii_digit c) ?x = d @ ?rest"
    using t0 d by (simp add: dropWhile_append2)
  have tk: "takeWhile (\<lambda>c. \<not> is_ascii_digit c) ?x = t0"
    using t0 d by (simp add: takeWhile_append2)
  have dd: "\<And>c. c \<in> set d \<Longrightarrow> is_ascii_digit c"
    using ok(1) by (simp add: digit_run_def list_all_iff)
  have st: "takeWhile is_ascii_digit ?rest = []" "dropWhile is_ascii_digit ?rest = ?rest"
    using join_runs_starts_with_text [OF ok(2,3)] by auto
  have td: "takeWhile is_ascii_digit (d @ ?rest) = d"
    using dd st(1) by (simp add: takeWhile_append2)
  have dd2: "dropWhile is_ascii_digit (d @ ?rest) = ?rest"
    using dd st(2) by (simp add: dropWhile_append2)
  have "re_split ?x = t0 # d # re_split ?rest"
    using dr tk td dd2 d(1) by (subst re_split.simps) (simp add: Let_def)
  then show ?case using Cons.IH [OF ok(2,4)] a by simp
qed

lemma digit_not_space: "is_ascii_digit c \<Longrightarrow> \<not> is_int_space c"
  by (auto simp: is_ascii_digit_def is_int_space_def)

lemma digit_not_sign:
  "is_ascii_digit c \<Longrightarrow> c \<noteq> CHR ''-'' \<and> c \<noteq> CHR ''+'' \<and> c \<noteq> CHR ''_''"
  by (auto simp: is_ascii_digit_def)

lemma int_strip_no_space_ends:
  assumes "s \<noteq> []" and "\<not> is_int_space (hd s)" and "\<not> is_int_space (last s)"
  shows "int_strip s = s"
proof -
  have a: "dropWhile is_int_space s = s" using assms(1,2) by (cases s) auto
  obtain ys y where ys: "s = ys @ [y]" using assms(1) by (cases s rule: rev_cases) auto
  then have "dropWhile is_int_space (rev s) = rev s"
    using assms(3) by simp
  with a show ?thesis by (simp add: int_strip_def)
qed

lemma digits_with_underscores_all_digits:
  "d \<noteq> [] \<Longrightarrow> list_all is_ascii_digit d \<Longrightarrow> digits_with_underscores d"
  by (induction d rule: digits_with_underscores.induct) (auto dest: digit_not_sign)

lemma py_int_digit_run:
  assumes "digit_run d" and "length d \<le> int_max_str_digits"
  shows "py_int d = Inr (int (decimal_value d))"
proof -
  from assms(1) have ne: "d \<noteq> []" and all: "list_all is_ascii_digit d"
    by (auto simp: digit_run_def)
  have h: "is_ascii_digit (hd d)" and l: "is_ascii_digit (last d)"
    using ne all by (auto simp: list_all_iff)
  have s: "int_strip d = d"
    using ne h l by (intro int_strip_no_space_ends) (auto dest: digit_not_space)
  have f: "filter (\<lambda>c. c \<noteq> CHR ''_'') d = d"
    using all by (auto simp: list_all_iff filter_id_conv dest: digit_not_sign)
  show ?thesis
    using s f ne assms(2) digit_not_sign [OF h] digits_with_underscores_all_digits [OF ne all]
    by (simp add: py_int_def Let_def)
qed

lemma isdigit_digit_run: "digit_run d \<Longrightarrow> isdigit d"
  by (auto simp: digit_run_def isdigit_def is_unicode_digit_def list_all_iff)

lemma key_of_piece_digits:
  assumes "digit_run d" and "length d \<le> int_max_str_digits"
  shows "key_of_piece d = Inr (KInt (int (decimal_value d)))"
  using isdigit_digit_run [OF assms(1)]
  by (simp add: key_of_piece_def py_int_digit_run [OF assms])

lemma key_of_piece_digit_run_kind:
  "digit_run d \<Longrightarrow> key_of_piece d = Inr v \<Longrightarrow> \<exists>n. v = KInt n"
  using isdigit_digit_run [of d] by (auto simp: key_of_piece_def split: sum.splits)

lemma key_of_piece_text: "\<not> isdigit t \<Longrightarrow> key_of_piece t = Inr (KStr t)"
  by (simp add: key_of_piece_def)

text \<open>
  A text run made of superscript digits only passes \<open>isdigit\<close> and is handed to \<open>int\<close>,
  which raises.
\<close>

lemma key_of_piece_superscripts:
  assumes "text_run t" and "isdigit t"
  shows "key_of_piece t = Inl ValueError"
proof -
  from assms(2) obtain c cs where t: "t = c # cs" by (cases t) (auto simp: isdigit_def)
  have sup: "\<And>x. x \<in> set t \<Longrightarrow> x \<in> set [CHR 0xB2, CHR 0xB3, CHR 0xB9]"
    using assms by (auto simp: text_run_def isdigit_def is_unicode_digit_def list_all_iff)
  have ns: "\<And>x. x \<in> set t \<Longrightarrow> \<not> is_int_space x \<and> x \<noteq> CHR ''-'' \<and> x \<noteq> CHR ''+''"
    using sup by (fastforce simp: is_int_space_def)
  have "hd t \<in> set t" "last t \<in> set t" using t by auto
  then have s: "int_strip t = t"
    using t ns by (intro int_strip_no_space_ends) auto
  have "\<not> is_ascii_digit c" using assms(1) t by (simp add: text_run_def)
  then have "\<not> digits_with_underscores t" using t by (cases cs) auto
  moreover have "c \<noteq> CHR ''-'' \<and> c \<noteq> CHR ''+''" using ns [of c] t by simp
  ultimately have "py_int t = Inl ValueError"
    using s t by (simp add: py_int_def Let_def)
  then show ?thesis using assms(2) by (simp add: key_of_piece_def)
qed

lemma map_exn_run_pieces:
  assumes "runs_ok r" and "\<forall>t \<in> set (map snd r). \<not> isdigit t"
      and "\<forall>d \<in> set (map fst r). length d \<le> int_max_str_digits"
  shows "map_exn key_of_piece (concat (map (\<lambda>(d, t). [d, t]) r)) = Inr (run_keys r)"
  using assms
proof (induction r)
  case Nil
  show ?case by (simp add: run_keys_def)
next
  case (Cons a r)
  obtain d t where a: "a = (d, t)" by (cases a)
  from Cons.prems(1) a have ok: "digit_run d" "runs_ok r"
    using runs_ok_Cons by blast+
  have nt: "\<not> isdigit t" using Cons.prems(2) a by simp
  have ld: "length d \<le> int_max_str_digits" using Cons.prems(3) a by simp
  have "map_exn key_of_piece (concat (map (\<lambda>(d, t). [d, t]) r)) = Inr (run_keys r)"
    using Cons.IH [OF ok(2)] Cons.prems(2,3) by simp
  then show ?case
    using a key_of_piece_digits [OF ok(1) ld] key_of_piece_text [OF nt]
    by (simp add: run_keys_def)
qed

lemma natural_key_join_runs:
  assumes "text_run t0" and "runs_ok r"
      and "\<not> isdigit t0" and "\<forall>t \<in> set (map snd r). \<not> isdigit t"
      and "\<forall>d \<in> set (map fst r). length d \<le> int_max_str_digits"
  shows "natural_key (join_runs t0 r) = Inr (KStr t0 # run_keys r)"
  using map_exn_run_pieces [OF assms(2,4,5)] key_of_piece_text [OF assms(3)]
  by (simp add: natural_key_def re_split_join_runs [OF assms(1,2)])

lemma key_lt_run_keys:
  assumes "map snd r = map snd r'"
      and "k < length r"
      and "\<forall>j < k. decimal_value (fst (r ! j)) = decimal_value (fst (r' ! j))"
      and "decimal_value (fst (r ! k)) < decimal_value (fst (r' ! k))"
  shows "key_lt (KStr t0 # run_keys r) (KStr t0 # run_keys r') = Inr True"
  using assms
proof (induction k arbitrary: r r' t0)
  case 0
  then obtain d t rs where r: "r = (d, t) # rs" by (cases r) auto
  with 0 obtain d' rs' where r': "r' = (d', t) # rs'" by (cases r') auto
  show ?case using 0 r r' by (simp add: run_keys_def)
next
  case (Suc k)
  then obtain d t rs where r: "r = (d, t) # rs" by (cases r) auto
  with Suc.prems obtain d' rs' where r': "r' = (d', t) # rs'" by (cases r') auto
  have e: "decimal_value d = decimal_value d'" using Suc.prems(3) r r' by auto
  have "key_lt (KStr t # run_keys rs) (KStr t # run_keys rs') = Inr True"
  proof (rule Suc.IH)
    show "map snd rs = map snd rs'" using Suc.prems(1) r r' by simp
    show "k < length rs" using Suc.prems(2) r by simp
    show "\<forall>j<k. decimal_value (fst (rs ! j)) = decimal_value (fst (rs' ! j))"
      using Suc.prems(3) r r' by auto
    show "decimal_value (fst (rs ! k)) < decimal_value (fst (rs' ! k))"
      using Suc.prems(4) r r' by simp
  qed
  then show ?case using r r' e by (simp add: run_keys_def)
qed

text \<open>
  For two strings that differ only in their numeric runs, none of whose text runs is
  made of superscript digits only and none of whose digit runs is longer than the limit
  of \<open>int\<close>, both keys are defined and the string whose first differing number is
  smaller has the smaller key.
\<close>

lemma natural_key_orders_numbers:
  assumes "text_run t0" and "runs_ok r" and "runs_ok r'"
      and "map snd r = map snd r'"
      and "\<not> isdigit t0" and "\<forall>t \<in> set (map snd r). \<not> isdigit t"
      and "\<forall>d \<in> set (map fst r). length d \<le> int_max_str_digits"
      and "\<forall>d \<in> set (map fst r'). length d \<le> int_max_str_digits"
      and "k < length r"
      and "\<forall>j < k. decimal_value (fst (r ! j)) = decimal_value (fst (r' ! j))"
      and "decimal_value (fst (r ! k)) < decimal_value (fst (r' ! k))"
  shows "\<exists>kx ky. natural_key (join_runs t0 r) = Inr kx \<and>
                 natural_key (join_runs t0 r') = Inr ky \<and>
                 key_lt kx ky = Inr True \<and> key_lt ky kx = Inr False"
proof -
  have x: "natural_key (join_runs t0 r) = Inr (KStr t0 # run_keys r)"
    by (rule natural_key_join_runs [OF assms(1,2,5,6,7)])
  have "\<forall>t \<in> set (map snd r'). \<not> isdigit t" using assms(4,6) by simp
  then have y: "natural_key (join_runs t0 r') = Inr (KStr t0 # run_keys r')"
    using assms(8) by (intro natural_key_join_runs [OF assms(1,3,5)])
  have lt: "key_lt (KStr t0 # run_keys r) (KStr t0 # run_keys r') = Inr True"
    by (rule key_lt_run_keys [OF assms(4,9,10,11)])
  show ?thesis using x y lt key_lt_asym [OF lt] by blast
qed

text \<open>The example of the specification, on the paths the key is applied to.\<close>

lemma p2_before_p10:
  "natural_key ''/b/input/A/p2.jpg'' = Inr [KStr ''/b/input/A/p'', KInt 2, KStr ''.jpg''] \<and>
   natural_key ''/b/input/A/p10.jpg'' = Inr [KStr ''/b/input/A/p'', KInt 10, KStr ''.jpg''] \<and>
   key_lt [KStr ''/b/input/A/p'', KInt 2, KStr ''.jpg'']
          [KStr ''/b/input/A/p'', KInt 10, KStr ''.jpg''] = Inr True \<and>
   py_sorted natural_key [''/b/input/A/p10.jpg'', ''/b/input/A/p2.jpg'']
     = Inr [''/b/input/A/p2.jpg'', ''/b/input/A/p10.jpg'']"
  by code_simp

text \<open>
  C2. The claim fails for names with a run of superscript digits next to a digit run:
  \<open>re.split\<close> treats the superscript as text (the pattern is \<open>[0-9]+\<close>), but \<open>isdigit\<close>
  accepts it and \<open>int\<close> raises \<open>ValueError\<close>. For the two names below, which differ only
  in the numeric run \<open>2\<close> against \<open>10\<close>, no key is computed: \<open>sorted\<close> raises, the run
  ends, and no PDF is written.
\<close>

theorem superscript_run_breaks_natural_sort:
  "re_split (''/b/input/A/1'' @ [CHR 0xB2] @ ''2.jpg'')
     = [''/b/input/A/'', ''1'', [CHR 0xB2], ''2'', ''.jpg''] \<and>
   isdigit [CHR 0xB2] \<and>
   py_int [CHR 0xB2] = Inl ValueError \<and>
   natural_key (''/b/input/A/1'' @ [CHR 0xB2] @ ''2.jpg'') = Inl ValueError \<and>
   list_image_files superscript_world ''/b/input/A'' = Inl ValueError \<and>
   fst (run_with_policy superscript_world OriginalSize fresh) = Some ValueError \<and>
   output_files (snd (run_with_policy superscript_world OriginalSize fresh)) ''/b/output/A.pdf''
     = None"
  by code_simp

section \<open>Sorting: the result is sorted by the key\<close>

lemma str_lt_total: "a \<noteq> b \<Longrightarrow> str_lt a b \<or> str_lt b a"
proof (induction a b rule: str_lt.induct)
  case (4 a as b bs)
  have "a \<noteq> b \<Longrightarrow> (of_char a :: nat) < of_char b \<or> (of_char b :: nat) < of_char a"
    by (metis of_char_eq_iff linorder_neqE_nat)
  with 4 show ?case by auto
qed auto

lemma str_lt_trans: "str_lt a b \<Longrightarrow> str_lt b c \<Longrightarrow> str_lt a c"
proof (induction a b arbitrary: c rule: str_lt.induct)
  case 1
  then show ?case by simp
next
  case (2 b bs)
  then show ?case by (cases c) auto
next
  case (3 a as)
  then show ?case by simp
next
  case (4 a as b bs)
  then show ?case by (cases c) (auto split: if_splits)
qed

lemma re_split_shape:
  "\<exists>t0 r. re_split x = t0 # concat (map (\<lambda>(d, t). [d, t]) r) \<and> text_run t0 \<and>
          (\<forall>p \<in> set r. digit_run (fst p) \<and> text_run (snd p))"
proof (induction x rule: re_split.induct)
  case (1 x)
  let ?rest = "dropWhile (\<lambda>c. \<not> is_ascii_digit c) x"
  show ?case
  proof (cases "?rest = []")
    case True
    then have "text_run x" by (auto simp: text_run_def list_all_iff dropWhile_eq_Nil_conv)
    moreover have "re_split x = [x]" using True by (simp add: re_split.simps [of x])
    ultimately show ?thesis by (intro exI [of _ x] exI [of _ "[]"]) simp
  next
    case False
    let ?t0 = "takeWhile (\<lambda>c. \<not> is_ascii_digit c) x"
    let ?d = "takeWhile is_ascii_digit ?rest"
    from 1 [OF refl False] obtain t1 r1 where
      ih: "re_split (dropWhile is_ascii_digit ?rest) = t1 # concat (map (\<lambda>(d, t). [d, t]) r1)"
        "text_run t1" "\<forall>p \<in> set r1. digit_run (fst p) \<and> text_run (snd p)"
      by blast
    have t0: "text_run ?t0"
      by (auto simp: text_run_def list_all_iff dest: set_takeWhileD)
    have "\<not> \<not> is_ascii_digit (hd ?rest)" using False by (rule hd_dropWhile)
    then have "is_ascii_digit (hd ?rest)" by simp
    then have "?d \<noteq> []" using False by (cases ?rest) auto
    then have d: "digit_run ?d"
      by (auto simp: digit_run_def list_all_iff dest: set_takeWhileD)
    have "re_split x = ?t0 # ?d # t1 # concat (map (\<lambda>(d, t). [d, t]) r1)"
      using False ih(1) by (subst re_split.simps) (simp add: Let_def)
    then have "re_split x = ?t0 # concat (map (\<lambda>(d, t). [d, t]) ((?d, t1) # r1))"
      by simp
    moreover have "\<forall>p \<in> set ((?d, t1) # r1). digit_run (fst p) \<and> text_run (snd p)"
      using d ih(2,3) by simp
    ultimately show ?thesis using t0 by blast
  qed
qed

lemma key_of_piece_text_run:
  "text_run t \<Longrightarrow> key_of_piece t = Inr v \<Longrightarrow> v = KStr t"
  by (cases "isdigit t") (auto simp: key_of_piece_superscripts key_of_piece_text)

lemma key_of_piece_error: "key_of_piece c = Inl e \<Longrightarrow> e = ValueError"
  by (auto simp: key_of_piece_def py_int_def Let_def split: if_splits sum.splits)

lemma map_exn_error: "(\<And>x e. f x = Inl e \<Longrightarrow> e = v) \<Longrightarrow> map_exn f xs = Inl e \<Longrightarrow> e = v"
  by (induction xs) (auto split: sum.splits)

lemma natural_key_error: "natural_key x = Inl e \<Longrightarrow> e = ValueError"
  unfolding natural_key_def by (rule map_exn_error [of key_of_piece]) (rule key_of_piece_error)

lemma run_pieces_alternating:
  assumes "\<forall>p \<in> set r. digit_run (fst p) \<and> text_run (snd p)"
      and "map_exn key_of_piece (concat (map (\<lambda>(d, t). [d, t]) r)) = Inr k"
  shows "alternating False k"
  using assms
proof (induction r arbitrary: k)
  case Nil
  then show ?case by simp
next
  case (Cons a r)
  obtain d t where a: "a = (d, t)" by (cases a)
  from Cons.prems(1) a have dt: "digit_run d" "text_run t" by auto
  from Cons.prems(2) a obtain vd vt k' where
    v: "key_of_piece d = Inr vd" "key_of_piece t = Inr vt"
       "map_exn key_of_piece (concat (map (\<lambda>(d, t). [d, t]) r)) = Inr k'"
       "k = vd # vt # k'"
    by (auto split: sum.splits)
  obtain n where "vd = KInt n" using key_of_piece_digit_run_kind [OF dt(1) v(1)] by blast
  moreover have "vt = KStr t" using key_of_piece_text_run [OF dt(2) v(2)] .
  moreover have "alternating False k'" using Cons.IH [OF _ v(3)] Cons.prems(1) by simp
  ultimately show ?case using v(4) by simp
qed

lemma natural_key_alternating: "natural_key x = Inr k \<Longrightarrow> alternating True k"
proof -
  assume a: "natural_key x = Inr k"
  from re_split_shape [of x] obtain t0 r where
    s: "re_split x = t0 # concat (map (\<lambda>(d, t). [d, t]) r)" "text_run t0"
       "\<forall>p \<in> set r. digit_run (fst p) \<and> text_run (snd p)" by blast
  from a s(1) obtain v k' where
    v: "key_of_piece t0 = Inr v"
       "map_exn key_of_piece (concat (map (\<lambda>(d, t). [d, t]) r)) = Inr k'" "k = v # k'"
    by (auto simp: natural_key_def split: sum.splits)
  have "v = KStr t0" using key_of_piece_text_run [OF s(2) v(1)] .
  then show ?thesis using run_pieces_alternating [OF s(3) v(2)] v(3) by simp
qed

lemma str_lt_irrefl: "\<not> str_lt a a"
  using str_lt_asym by blast

lemma key_lt_defined:
  "alternating f a \<Longrightarrow> alternating f c \<Longrightarrow> \<exists>v. key_lt a c = Inr v"
proof (induction a c arbitrary: f rule: key_lt.induct)
  case (4 x xs y ys)
  show ?case
  proof (cases x)
    case (KStr s)
    with 4 show ?thesis by (cases y) auto
  next
    case (KInt n)
    with 4 show ?thesis by (cases y) auto
  qed
qed auto

lemma elem_le_trans:
  assumes "elem_lt y x = Inr False" and "elem_lt z y = Inr False"
  shows "elem_lt z x = Inr False"
proof (cases x)
  case (KStr sx)
  with assms(1) obtain sy where y: "y = KStr sy" by (cases y) auto
  with assms(2) obtain sz where z: "z = KStr sz" by (cases z) auto
  have a: "\<not> str_lt sy sx" "\<not> str_lt sz sy" using assms KStr y z by auto
  have "\<not> str_lt sz sx"
  proof
    assume l: "str_lt sz sx"
    show False
    proof (cases "sx = sy")
      case True
      with l a(2) show False by simp
    next
      case False
      then have "str_lt sx sy" using a(1) str_lt_total by blast
      with l have "str_lt sz sy" by (rule str_lt_trans)
      with a(2) show False by simp
    qed
  qed
  then show ?thesis using KStr z by simp
next
  case (KInt nx)
  with assms(1) obtain ny where y: "y = KInt ny" by (cases y) auto
  with assms(2) obtain nz where z: "z = KInt nz" by (cases z) auto
  show ?thesis using assms KInt y z by auto
qed

lemma elem_lt_False_neq:
  assumes "elem_lt y x = Inr False" and "y \<noteq> x"
  shows "elem_lt x y = Inr True"
proof (cases x)
  case (KStr sx)
  with assms(1) obtain sy where y: "y = KStr sy" by (cases y) auto
  then show ?thesis using assms KStr str_lt_total [of sx sy] by auto
next
  case (KInt nx)
  with assms(1) obtain ny where y: "y = KInt ny" by (cases y) auto
  then show ?thesis using assms KInt by auto
qed

lemma elem_lt_irrefl: "elem_lt x x \<noteq> Inr True"
  by (cases x) (auto simp: str_lt_irrefl)

lemma key_le_trans:
  "key_le a b \<Longrightarrow> key_le b c \<Longrightarrow> key_le a c"
  unfolding key_le_def
proof (induction a arbitrary: b c)
  case Nil
  show ?case by (cases c) auto
next
  case (Cons x a')
  from Cons.prems(1) obtain y b' where b: "b = y # b'" by (cases b) auto
  from Cons.prems(2) b obtain z c' where c: "c = z # c'" by (cases c) auto
  have p1: "(if y = x then key_lt b' a' else elem_lt y x) = Inr False"
    using Cons.prems(1) b by simp
  have p2: "(if z = y then key_lt c' b' else elem_lt z y) = Inr False"
    using Cons.prems(2) b c by simp
  show ?case
  proof (cases "y = x")
    case yx: True
    show ?thesis
    proof (cases "z = y")
      case True
      then show ?thesis using yx p1 p2 c Cons.IH [of b' c'] by simp
    next
      case False
      then show ?thesis using yx p2 c by simp
    qed
  next
    case yx: False
    show ?thesis
    proof (cases "z = y")
      case True
      then show ?thesis using yx p1 c by simp
    next
      case False
      have e1: "elem_lt y x = Inr False" using yx p1 by simp
      have e2: "elem_lt z y = Inr False" using False p2 by simp
      have e3: "elem_lt z x = Inr False" by (rule elem_le_trans [OF e1 e2])
      have "z \<noteq> x"
      proof
        assume "z = x"
        then have "elem_lt x y = Inr False" using e2 by simp
        moreover have "elem_lt x y = Inr True" by (rule elem_lt_False_neq [OF e1 yx])
        ultimately show False by simp
      qed
      then show ?thesis using e3 c by simp
    qed
  qed
qed

lemma insert_by_key_sorted:
  assumes "sorted_wrt (\<lambda>p q. key_le (fst p) (fst q)) bs"
      and "insert_by_key a bs = Inr r"
  shows "sorted_wrt (\<lambda>p q. key_le (fst p) (fst q)) r"
  using assms
proof (induction bs arbitrary: r)
  case Nil
  then show ?case by auto
next
  case (Cons b bs)
  from Cons.prems(2) obtain v where v: "key_lt (fst b) (fst a) = Inr v"
    by (cases "key_lt (fst b) (fst a)") auto
  show ?case
  proof (cases v)
    case True
    with Cons.prems(2) v obtain r' where r': "insert_by_key a bs = Inr r'" "r = b # r'"
      by (auto split: sum.splits)
    have s: "sorted_wrt (\<lambda>p q. key_le (fst p) (fst q)) r'"
      using Cons.IH [OF _ r'(1)] Cons.prems(1) by simp
    have "set r' = insert a (set bs)"
      using insert_by_key_mset [OF r'(1)] by (metis set_mset_mset set_mset_add_mset_insert)
    moreover have "key_le (fst b) (fst a)"
      using v True key_lt_asym by (simp add: key_le_def)
    ultimately have "\<forall>q \<in> set r'. key_le (fst b) (fst q)"
      using Cons.prems(1) by auto
    then show ?thesis using s r'(2) by simp
  next
    case False
    with Cons.prems(2) v have r: "r = a # b # bs" by auto
    have ab: "key_le (fst a) (fst b)" using v False by (simp add: key_le_def)
    have "\<forall>q \<in> set bs. key_le (fst a) (fst q)"
      using Cons.prems(1) ab key_le_trans by auto
    then show ?thesis using Cons.prems(1) ab r by simp
  qed
qed

lemma sort_by_key_sorted:
  "sort_by_key kxs = Inr s \<Longrightarrow> sorted_wrt (\<lambda>p q. key_le (fst p) (fst q)) s"
proof (induction kxs arbitrary: s)
  case Nil
  then show ?case by simp
next
  case (Cons a kxs)
  then show ?case by (auto split: sum.splits intro: insert_by_key_sorted)
qed

lemma insert_by_key_defined:
  assumes "alternating True (fst a)" and "\<forall>p \<in> set bs. alternating True (fst p)"
  shows "\<exists>r. insert_by_key a bs = Inr r"
  using assms(2)
proof (induction bs)
  case Nil
  show ?case by simp
next
  case (Cons b bs)
  then obtain r where r: "insert_by_key a bs = Inr r" by auto
  from Cons.prems have "alternating True (fst b)" by simp
  from key_lt_defined [OF this assms(1)] obtain v where "key_lt (fst b) (fst a) = Inr v"
    by blast
  then show ?case using r by (cases v) auto
qed

lemma sort_by_key_defined:
  "\<forall>p \<in> set kxs. alternating True (fst p) \<Longrightarrow> \<exists>s. sort_by_key kxs = Inr s"
proof (induction kxs)
  case Nil
  show ?case by simp
next
  case (Cons a kxs)
  then obtain s where s: "sort_by_key kxs = Inr s" by auto
  have "\<forall>p \<in> set s. alternating True (fst p)"
    using sort_by_key_mset [OF s] Cons.prems by (metis list.set_intros(2) set_mset_mset)
  from insert_by_key_defined [OF _ this, of a] Cons.prems s show ?case by auto
qed

text \<open>
  The list of image files is sorted by the natural key, and the only exception the sort
  can raise is the \<open>ValueError\<close> of a key: keys that are defined alternate strings and
  integers in the same way, so no comparison meets a string and an integer.
\<close>

lemma with_key_error:
  "map_exn (with_key natural_key) xs = Inl e \<Longrightarrow> e = ValueError"
  by (rule map_exn_error [of "with_key natural_key"])
     (auto simp: with_key_def split: sum.splits dest: natural_key_error)

lemma py_sorted_natural_sorted:
  assumes "py_sorted natural_key xs = Inr ys"
  shows "sorted_wrt natural_le ys"
proof -
  from assms obtain kxs s where k: "map_exn (with_key natural_key) xs = Inr kxs"
    and s: "sort_by_key kxs = Inr s" and y: "ys = map snd s"
    by (auto simp: py_sorted_def split: sum.splits)
  have keys: "\<forall>p \<in> set s. natural_key (snd p) = Inr (fst p)"
    using with_key_fst [OF k] sort_by_key_mset [OF s] by (metis set_mset_mset)
  have "sorted_wrt (\<lambda>p q. key_le (fst p) (fst q)) s"
    by (rule sort_by_key_sorted [OF s])
  then have "sorted_wrt (\<lambda>p q. natural_le (snd p) (snd q)) s"
  proof (rule sorted_wrt_mono_rel [rotated])
    fix p q
    assume "p \<in> set s" "q \<in> set s" "key_le (fst p) (fst q)"
    then show "natural_le (snd p) (snd q)"
      using keys by (simp add: natural_le_def)
  qed
  then show ?thesis using y by (simp add: sorted_wrt_map)
qed

lemma py_sorted_natural_error:
  assumes "py_sorted natural_key xs = Inl e"
  shows "e = ValueError"
proof (cases "map_exn (with_key natural_key) xs")
  case (Inl e')
  with assms have "e = e'" by (simp add: py_sorted_def)
  with Inl show ?thesis using with_key_error by blast
next
  case (Inr kxs)
  have "\<forall>p \<in> set kxs. alternating True (fst p)"
    using with_key_fst [OF Inr] natural_key_alternating by blast
  from sort_by_key_defined [OF this] obtain s where "sort_by_key kxs = Inr s" by blast
  with Inr assms show ?thesis by (simp add: py_sorted_def)
qed

section \<open>The page order of a folder's PDF\<close>

text \<open>
  C1, amended. When a folder yields a PDF, its pages are the conversions of the image
  files that staged, in the natural-sort order of the folder's image files (the list of
  image files holds the recognized files of the folder, each once per listing entry,
  sorted by the natural key): page \<open>i\<close> is
  the conversion of the \<open>i\<close>-th image file among those that staged. (When every image
  stages, the filter keeps all of them and page \<open>i\<close> is the conversion of the \<open>i\<close>-th
  image file.) The entries of a directory listing are names, without a path separator.
\<close>

theorem pages_in_natural_sort_order:
  assumes "process_folder w pol input_dir output_dir temp_dir folder_name st
             = (PdfWritten pdf_path, st')"
      and "listdir w (path_join input_dir folder_name) = Inr names"
      and "\<forall>n \<in> set names. CHR ''/'' \<notin> set n"
  shows "\<exists>image_files target_size pages.
           list_image_files w (path_join input_dir folder_name) = Inr image_files \<and>
           mset image_files = mset (image_paths (path_join input_dir folder_name) names) \<and>
           sorted_wrt natural_le image_files \<and>
           fst (resolve_target_size w pol image_files st) = Inr target_size \<and>
           pdf_pages st' pdf_path = Some pages \<and>
           pages = map (\<lambda>p. projr (conversion w pol target_size temp_dir p))
                     (filter (stages w pol target_size temp_dir) image_files) \<and>
           map img_src pages = filter (stages w pol target_size temp_dir) image_files"
proof -
  let ?fp = "path_join input_dir folder_name"
  from process_folder_PdfWritten [OF assms(1)] obtain image_files target_size st1 where
    d: "isdir w ?fp" and l: "list_image_files w ?fp = Inr image_files"
    and ne: "image_files \<noteq> []"
    and r: "resolve_target_size w pol image_files st = (Inr target_size, st1)"
    by blast
  let ?staged = "stage_all w pol target_size temp_dir image_files [] st1"
  let ?pdf = "path_join output_dir (folder_name @ ''.pdf'')"
  let ?ok = "filter (stages w pol target_size temp_dir) image_files"
  let ?conv = "\<lambda>p. projr (conversion w pol target_size temp_dir p)"
  have pf: "(if fst ?staged = [] then (NothingStaged, snd ?staged)
             else (case write_pdf w ?pdf (fst ?staged) (snd ?staged) of
                     (Some e, st3) \<Rightarrow> (Raised e, st3)
                   | (None, st3) \<Rightarrow> (PdfWritten ?pdf, st3))) = (PdfWritten pdf_path, st')"
    using process_folder_staged [OF d l ne r, of output_dir temp_dir] assms(1)
    by (simp add: Let_def)
  then have wp: "write_pdf w pdf_path (fst ?staged) (snd ?staged) = (None, st')"
    by (auto split: if_splits prod.splits option.splits)
  from write_pdf_None [OF wp] obtain pages where
    rd: "map_exn (read_temp (snd ?staged)) (fst ?staged) = Inr pages"
    and pp: "pdf_pages st' pdf_path = Some pages" by blast
  have inj: "inj_on (temp_path_of temp_dir) (set image_files)"
    by (rule image_files_inj [OF assms(2) l assms(3)])
  have "map_exn (read_temp (snd ?staged)) (map (temp_path_of temp_dir) ?ok)
          = Inr (map ?conv ?ok)"
  proof (rule map_exn_map_map)
    fix p
    assume "p \<in> set ?ok"
    then have p: "p \<in> set image_files" "stages w pol target_size temp_dir p" by auto
    show "read_temp (snd ?staged) (temp_path_of temp_dir p) = Inr (?conv p)"
      by (rule read_temp_staged_inj [OF p inj])
  qed
  then have pages: "pages = map ?conv ?ok"
    using rd by (simp add: stage_all_paths)
  have srcs: "map img_src (map ?conv ?ok) = ?ok"
  proof -
    have "\<And>p. stages w pol target_size temp_dir p \<Longrightarrow> img_src (?conv p) = p"
    proof -
      fix p
      assume "stages w pol target_size temp_dir p"
      then obtain img where "conversion w pol target_size temp_dir p = Inr img"
        by (cases "conversion w pol target_size temp_dir p") (auto simp: stages_def)
      then show "img_src (?conv p) = p" using conversion_src by fastforce
    qed
    then show ?thesis by (induction image_files) auto
  qed
  have perm: "mset image_files = mset (image_paths ?fp names)"
    by (rule list_image_files_set [OF assms(2) l])
  have "py_sorted natural_key (image_paths ?fp names) = Inr image_files"
    using l assms(2) by (simp add: list_image_files_def)
  then have srt: "sorted_wrt natural_le image_files"
    by (rule py_sorted_natural_sorted)
  from pages pp l r perm srt srcs show ?thesis by simp
qed

theorem pages_in_natural_sort_order_witness:
  "process_folder pages_world OriginalSize ''/b/input'' ''/b/output''
       ''/b/temp_pdf_images'' ''A'' fresh
     = (PdfWritten ''/b/output/A.pdf'',
        snd (process_folder pages_world OriginalSize ''/b/input'' ''/b/output''
               ''/b/temp_pdf_images'' ''A'' fresh)) \<and>
   listdir pages_world (path_join ''/b/input'' ''A'') = Inr [''p10.png'', ''p2.png''] \<and>
   CHR ''/'' \<notin> set ''p10.png'' \<and> CHR ''/'' \<notin> set ''p2.png'' \<and>
   (\<exists>image_files target_size pages.
      list_image_files pages_world (path_join ''/b/input'' ''A'') = Inr image_files \<and>
      mset image_files
        = mset (image_paths (path_join ''/b/input'' ''A'') [''p10.png'', ''p2.png'']) \<and>
      sorted_wrt natural_le image_files \<and>
      fst (resolve_target_size pages_world OriginalSize image_files fresh) = Inr target_size \<and>
      pdf_pages (snd (process_folder pages_world OriginalSize ''/b/input'' ''/b/output''
               ''/b/temp_pdf_images'' ''A'' fresh)) ''/b/output/A.pdf'' = Some pages \<and>
      pages = map (\<lambda>p. projr (conversion pages_world OriginalSize target_size
                                  ''/b/temp_pdf_images'' p))
                (filter (stages pages_world OriginalSize target_size ''/b/temp_pdf_images'')
                   image_files) \<and>
      map img_src pages
        = filter (stages pages_world OriginalSize target_size ''/b/temp_pdf_images'')
            image_files) \<and>
   list_image_files pages_world ''/b/input/A''
     = Inr [''/b/input/A/p2.png'', ''/b/input/A/p10.png''] \<and>
   pdf_pages (snd (process_folder pages_world OriginalSize ''/b/input'' ''/b/output''
          ''/b/temp_pdf_images'' ''A'' fresh)) ''/b/output/A.pdf''
     = Some [\<lparr>img_src = ''/b/input/A/p2.png'', img_size = (100, 200), img_mode = ''RGB''\<rparr>,
             \<lparr>img_src = ''/b/input/A/p10.png'', img_size = (300, 50), img_mode = ''RGB''\<rparr>]"
proof -
  have f: "fst (process_folder pages_world OriginalSize ''/b/input'' ''/b/output''
             ''/b/temp_pdf_images'' ''A'' fresh) = PdfWritten ''/b/output/A.pdf''"
    by code_simp
  have h1: "process_folder pages_world OriginalSize ''/b/input'' ''/b/output''
       ''/b/temp_pdf_images'' ''A'' fresh
     = (PdfWritten ''/b/output/A.pdf'',
        snd (process_folder pages_world OriginalSize ''/b/input'' ''/b/output''
               ''/b/temp_pdf_images'' ''A'' fresh))"
    using f by (simp add: prod_eq_iff)
  have h2: "listdir pages_world (path_join ''/b/input'' ''A'') = Inr [''p10.png'', ''p2.png'']"
    by code_simp
  have h3: "\<forall>n \<in> set [''p10.png'', ''p2.png'']. CHR ''/'' \<notin> set n" by simp
  have c1: "list_image_files pages_world ''/b/input/A''
     = Inr [''/b/input/A/p2.png'', ''/b/input/A/p10.png'']"
    by code_simp
  have c2: "pdf_pages (snd (process_folder pages_world OriginalSize ''/b/input'' ''/b/output''
          ''/b/temp_pdf_images'' ''A'' fresh)) ''/b/output/A.pdf''
     = Some [\<lparr>img_src = ''/b/input/A/p2.png'', img_size = (100, 200), img_mode = ''RGB''\<rparr>,
             \<lparr>img_src = ''/b/input/A/p10.png'', img_size = (300, 50), img_mode = ''RGB''\<rparr>]"
    by code_simp
  have h3': "CHR ''/'' \<notin> set ''p10.png'' \<and> CHR ''/'' \<notin> set ''p2.png''" by simp
  from pages_in_natural_sort_order [OF h1 h2 h3] h1 h2 h3' c1 c2
  show ?thesis by blast
qed

end
